theory Spec2Isabelle
  imports Main
begin

section \<open>JavaScript values of the request bodies and of the stored records\<close>

text \<open>
  The file-backed server (\<^verbatim>\<open>express\<close> with \<^verbatim>\<open>users.json\<close>, \<^verbatim>\<open>camps.json\<close> and
  \<^verbatim>\<open>selections.json\<close>) reads its inputs from parsed JSON. A body field is one of the
  values below; a field that is absent is \<open>JUndefined\<close>. Numbers are the integers
  (fractions, arrays and nested objects are not part of this model), strings are lists
  of ASCII code units.
\<close>

datatype jsvalue = JUndefined | JNull | JBool bool | JNum int | JStr string

text \<open>\<^verbatim>\<open>!v\<close> is \<open>\<not> truthy v\<close>: undefined, null, false, 0 and the empty string are falsy.\<close>

fun truthy :: "jsvalue \<Rightarrow> bool" where
  "truthy JUndefined = False"
| "truthy JNull = False"
| "truthy (JBool b) = b"
| "truthy (JNum n) = (n \<noteq> 0)"
| "truthy (JStr s) = (s \<noteq> [])"

text \<open>\<^verbatim>\<open>a || b\<close> on values.\<close>

definition js_or :: "jsvalue \<Rightarrow> jsvalue \<Rightarrow> jsvalue" where
  "js_or a b = (if truthy a then a else b)"

subsection \<open>Numbers\<close>

text \<open>
  A JavaScript number is a binary64 double. The numbers of this program are integers
  (ids, bed counts, what \<^verbatim>\<open>parseInt\<close> returns), so a number is an \<open>int\<close> that is a
  double, and every arithmetic result is rounded to the nearest double, ties to the even
  significand. \<open>bits m\<close> is the length of \<open>m\<close> in binary; a magnitude below 2^53 is a
  double as it is, a larger one keeps its 53 leading bits.
\<close>

function bits :: "int \<Rightarrow> nat" where
  "bits n = (if n \<le> 0 then 0 else Suc (bits (n div 2)))"
  by pat_completeness auto
termination
  by (relation "measure nat") auto

declare bits.simps [simp del]

definition round_mag :: "int \<Rightarrow> int" where
  "round_mag m =
     (if m < 2 ^ 53 then m
      else let e = bits m - 53; q = m div 2 ^ e; r = m mod 2 ^ e
           in if 2 * r < 2 ^ e \<or> (2 * r = 2 ^ e \<and> even q) then q * 2 ^ e
              else (q + 1) * 2 ^ e)"

definition round_int :: "int \<Rightarrow> int" where
  "round_int n = sgn n * round_mag \<bar>n\<bar>"

text \<open>
  The value of an exact integer as a number: \<open>None\<close> when it rounds to 2^1024 or beyond,
  which is \<^verbatim>\<open>Infinity\<close>.
\<close>

definition round64 :: "int \<Rightarrow> int option" where
  "round64 n = (if 2 ^ 1024 \<le> \<bar>round_int n\<bar> then None else Some (round_int n))"

definition is_double :: "int \<Rightarrow> bool" where
  "is_double n = (round64 n = Some n)"

subsection \<open>\<^verbatim>\<open>Number.parseInt\<close>\<close>

definition isWhiteSpace :: "char \<Rightarrow> bool" where
  "isWhiteSpace c = (c \<in> set [CHR 0x09, CHR 0x0A, CHR 0x0B, CHR 0x0C, CHR 0x0D, CHR '' ''])"

definition digitValue :: "char \<Rightarrow> nat option" where
  "digitValue c =
     (let n = of_char c :: nat in
      if 48 \<le> n \<and> n \<le> 57 then Some (n - 48)
      else if 97 \<le> n \<and> n \<le> 122 then Some (n - 87)
      else if 65 \<le> n \<and> n \<le> 90 then Some (n - 55)
      else None)"

definition isDigit :: "nat \<Rightarrow> char \<Rightarrow> bool" where
  "isDigit R c = (case digitValue c of None \<Rightarrow> False | Some d \<Rightarrow> d < R)"

definition digitsValue :: "nat \<Rightarrow> string \<Rightarrow> int" where
  "digitsValue R Z =
     foldl (\<lambda>a c. case digitValue c of None \<Rightarrow> a | Some d \<Rightarrow> a * int R + int d) 0 Z"

text \<open>
  \<^verbatim>\<open>parseInt(string)\<close> with no radix: leading white space is dropped, then an optional
  sign, then an optional \<^verbatim>\<open>0x\<close> prefix (radix 16, otherwise 10), then the longest run of
  digits of that radix. The result is the number nearest to the digits' value, as V8
  computes it. No digit at all gives \<^verbatim>\<open>NaN\<close>, and digits beyond the range of a double
  give \<^verbatim>\<open>Infinity\<close>: both are \<open>None\<close> here, since the handlers only store the result
  (\<^verbatim>\<open>JSON.stringify\<close> writes either as \<^verbatim>\<open>null\<close>) or compare it with an id with
  \<^verbatim>\<open>===\<close> (neither equals an id).
\<close>

definition parseIntString :: "string \<Rightarrow> int option" where
  "parseIntString inputString =
     (let S = dropWhile isWhiteSpace inputString;
          sign = (if take 1 S = ''-'' then - 1 else 1 :: int);
          S1 = (if take 1 S = ''+'' \<or> take 1 S = ''-'' then drop 1 S else S);
          hex = (take 2 S1 = ''0x'' \<or> take 2 S1 = ''0X'');
          R = (if hex then 16 else 10);
          S2 = (if hex then drop 2 S1 else S1);
          Z = takeWhile (isDigit R) S2
      in if Z = [] then None else round64 (sign * digitsValue R Z))"

text \<open>
  \<^verbatim>\<open>Number.parseInt(v)\<close> first converts \<open>v\<close> to a string. \<^verbatim>\<open>"undefined"\<close>, \<^verbatim>\<open>"null"\<close>,
  \<^verbatim>\<open>"true"\<close>, \<^verbatim>\<open>"false"\<close> and \<^verbatim>\<open>"Infinity"\<close> hold no digit. A number below 10^21 prints
  as decimal digits that read back as the number. From 10^21 on it prints in exponent
  notation, \<^verbatim>\<open>d.ddde+NN\<close> with the fewest digits that still read back as the number, and
  \<^verbatim>\<open>parseInt\<close> stops after the first digit: \<open>shortest_head\<close> finds the decimal with the
  fewest significant digits next to the number, \<open>first_digit\<close> its leading digit.
  \<open>JNum n\<close> is the number a JSON body holds for the literal \<open>n\<close>.
\<close>

function ndigits :: "int \<Rightarrow> nat" where
  "ndigits n = (if n < 10 then 1 else Suc (ndigits (n div 10)))"
  by pat_completeness auto
termination
  by (relation "measure nat") auto

function first_digit :: "int \<Rightarrow> int" where
  "first_digit n = (if n < 10 then n else first_digit (n div 10))"
  by pat_completeness auto
termination
  by (relation "measure nat") auto

declare ndigits.simps [simp del]

declare first_digit.simps [simp del]

fun shortest_head :: "int \<Rightarrow> nat \<Rightarrow> nat list \<Rightarrow> int" where
  "shortest_head v D [] = v"
| "shortest_head v D (k # ks) =
     (let p = 10 ^ (D - k); lo = v div p * p; hi = lo + p
      in if round_mag lo = v then lo
         else if round_mag hi = v then hi
         else shortest_head v D ks)"

fun parseInt :: "jsvalue \<Rightarrow> int option" where
  "parseInt (JStr s) = parseIntString s"
| "parseInt (JNum n) =
     (case round64 n of
        None \<Rightarrow> None
      | Some v \<Rightarrow>
         if \<bar>v\<bar> < 10 ^ 21 then Some v
         else Some (sgn v * first_digit (shortest_head \<bar>v\<bar> (ndigits \<bar>v\<bar>) [1..<18])))"
| "parseInt _ = None"

text \<open>
  A number that went through \<^verbatim>\<open>JSON.stringify\<close> and \<^verbatim>\<open>JSON.parse\<close> is an integer or
  \<^verbatim>\<open>null\<close> (what \<^verbatim>\<open>NaN\<close> is written as): \<open>int option\<close>, \<open>None\<close> for \<^verbatim>\<open>null\<close>. In
  arithmetic and comparisons \<^verbatim>\<open>null\<close> counts as 0.
\<close>

definition toNumber :: "int option \<Rightarrow> int" where
  "toNumber v = (case v of None \<Rightarrow> 0 | Some n \<Rightarrow> n)"

definition jsonNumber :: "int option \<Rightarrow> jsvalue" where
  "jsonNumber v = (case v of None \<Rightarrow> JNull | Some n \<Rightarrow> JNum n)"

subsection \<open>Strings: \<^verbatim>\<open>split(",")\<close> and \<^verbatim>\<open>trim()\<close>\<close>

fun split_on :: "char \<Rightarrow> string \<Rightarrow> string list" where
  "split_on sep [] = [[]]"
| "split_on sep (c # cs) =
     (if c = sep then [] # split_on sep cs
      else (case split_on sep cs of [] \<Rightarrow> [[c]] | w # ws \<Rightarrow> (c # w) # ws))"

definition trim :: "string \<Rightarrow> string" where
  "trim s = rev (dropWhile isWhiteSpace (rev (dropWhile isWhiteSpace s)))"

subsection \<open>Objects with dynamic fields\<close>

text \<open>
  A user record gets its fields by role, and the responses drop one of them, so a user
  is a property list. \<open>get_prop\<close> reads a property (\<^verbatim>\<open>undefined\<close> when absent),
  \<open>omit\<close> is the rest pattern \<^verbatim>\<open>const { password: _, ...rest } = user\<close>, and \<open>stringify\<close>
  is what \<^verbatim>\<open>JSON.stringify\<close> keeps of an object: the properties that are not \<^verbatim>\<open>undefined\<close>.
\<close>

type_synonym jsobject = "(string \<times> jsvalue) list"

definition get_prop :: "jsobject \<Rightarrow> string \<Rightarrow> jsvalue" where
  "get_prop obj k = (case map_of obj k of None \<Rightarrow> JUndefined | Some v \<Rightarrow> v)"

definition omit :: "string \<Rightarrow> jsobject \<Rightarrow> jsobject" where
  "omit k obj = filter (\<lambda>p. fst p \<noteq> k) obj"

definition stringify :: "jsobject \<Rightarrow> jsobject" where
  "stringify obj = filter (\<lambda>p. snd p \<noteq> JUndefined) obj"

section \<open>The stored records\<close>

record camp =
  c_id :: int
  c_name :: jsvalue
  c_beds :: "int option"
  c_originalBeds :: "int option"
  c_resources :: "string list"
  c_contact :: jsvalue
  c_ambulance :: jsvalue
  c_type :: string
  c_addedBy :: jsvalue
  c_addedDate :: string

record selection =
  s_id :: int
  s_userId :: int
  s_userEmail :: jsvalue
  s_userName :: jsvalue
  s_campId :: int
  s_campName :: jsvalue
  s_selectedDate :: string

text \<open>The three files.\<close>

record db =
  users :: "jsobject list"
  camps :: "camp list"
  selections :: "selection list"

text \<open>\<^verbatim>\<open>req.user\<close>: the payload of the verified token, \<^verbatim>\<open>{ id, email, role }\<close>.\<close>

record claims =
  u_id :: int
  u_email :: jsvalue
  u_role :: string

text \<open>
  The error responses, by status and message:
  \<open>InvalidInput\<close> 400 (missing fields, invalid role),
  \<open>Conflict\<close> 400 (\<^verbatim>\<open>You already have a camp selected\<close>, \<^verbatim>\<open>User already exists with this email\<close>),
  \<open>CapacityExhausted\<close> 400 (\<^verbatim>\<open>This camp is full\<close>),
  \<open>InvalidCredentials\<close> 401, \<open>Forbidden\<close> 403, \<open>NotFound\<close> 404,
  \<open>Internal\<close> 500 (the \<^verbatim>\<open>catch\<close> of each handler).
\<close>

datatype error =
  InvalidInput | Conflict | CapacityExhausted | InvalidCredentials | Forbidden | NotFound | Internal

subsection \<open>Array helpers\<close>

text \<open>\<^verbatim>\<open>findIndex\<close>: the first index whose element satisfies the predicate, \<open>None\<close> for -1.\<close>

fun findIndex :: "('a \<Rightarrow> bool) \<Rightarrow> 'a list \<Rightarrow> nat option" where
  "findIndex P [] = None"
| "findIndex P (x # xs) = (if P x then Some 0 else map_option Suc (findIndex P xs))"

text \<open>\<^verbatim>\<open>xs.splice(i, 1)\<close>.\<close>

definition splice1 :: "nat \<Rightarrow> 'a list \<Rightarrow> 'a list" where
  "splice1 i xs = take i xs @ drop (Suc i) xs"

text \<open>\<^verbatim>\<open>users.find((u) => u.id === req.user.id)\<close>.\<close>

definition find_user :: "int \<Rightarrow> jsobject list \<Rightarrow> jsobject option" where
  "find_user uid us = find (\<lambda>u. get_prop u ''id'' = JNum uid) us"

section \<open>The handlers\<close>

text \<open>
  Each handler takes \<^verbatim>\<open>req.user\<close>, its parameters, the time stamp it would read from the
  clock and the three files, and returns its response with the files as it leaves them.
  A handler that throws after a write returns \<open>Internal\<close> together with what it wrote.
\<close>

text \<open>
  \<^verbatim>\<open>POST /api/camps/:id/select\<close>. \<^verbatim>\<open>camps.find\<close> returns the array element itself, so
  \<^verbatim>\<open>camp.beds -= 1\<close> changes the array; the model keeps the index of the element and
  writes it back. A path parameter that parses to \<^verbatim>\<open>NaN\<close> equals no id.
\<close>

definition select_camp :: "claims \<Rightarrow> string \<Rightarrow> string \<Rightarrow> db \<Rightarrow> (error + selection) \<times> db" where
  "select_camp user pid now st =
     (if u_role user \<noteq> ''refugee'' then (Inl Forbidden, st)
      else case parseInt (JStr pid) of
        None \<Rightarrow> (Inl NotFound, st)
      | Some campId \<Rightarrow>
         (case findIndex (\<lambda>c. c_id c = campId) (camps st) of
            None \<Rightarrow> (Inl NotFound, st)
          | Some i \<Rightarrow>
             (let camp = camps st ! i in
              case find (\<lambda>s. s_userId s = u_id user) (selections st) of
                Some existingSelection \<Rightarrow> (Inl Conflict, st)
              | None \<Rightarrow>
                 if toNumber (c_beds camp) \<le> 0 then (Inl CapacityExhausted, st)
                 else
                   (let camp' = camp\<lparr>c_beds := Some (round_int (toNumber (c_beds camp) - 1))\<rparr>;
                        st1 = st\<lparr>camps := (camps st)[i := camp']\<rparr>
                    in case find_user (u_id user) (users st) of
                         None \<Rightarrow> (Inl Internal, st1)
                       | Some u \<Rightarrow>
                          (let newSelection =
                                 \<lparr>s_id = int (length (selections st)) + 1,
                                  s_userId = u_id user,
                                  s_userEmail = u_email user,
                                  s_userName = get_prop u ''name'',
                                  s_campId = campId,
                                  s_campName = c_name camp',
                                  s_selectedDate = now\<rparr>
                           in (Inr newSelection,
                               st1\<lparr>selections := selections st @ [newSelection]\<rparr>))))))"

text \<open>\<^verbatim>\<open>DELETE /api/selections/my\<close>.\<close>

definition cancel_selection :: "claims \<Rightarrow> db \<Rightarrow> (error + unit) \<times> db" where
  "cancel_selection user st =
     (case findIndex (\<lambda>s. s_userId s = u_id user) (selections st) of
        None \<Rightarrow> (Inl NotFound, st)
      | Some selectionIndex \<Rightarrow>
         (let selection = selections st ! selectionIndex;
              camps' =
                (case findIndex (\<lambda>c. c_id c = s_campId selection) (camps st) of
                   None \<Rightarrow> camps st
                 | Some i \<Rightarrow>
                    (camps st)[i := (camps st ! i)\<lparr>c_beds :=
                       Some (round_int (toNumber (c_beds (camps st ! i)) + 1))\<rparr>])
          in (Inr (), st\<lparr>camps := camps', selections := splice1 selectionIndex (selections st)\<rparr>)))"

text \<open>
  \<^verbatim>\<open>POST /api/camps\<close>. \<^verbatim>\<open>resources.split\<close> is not a function on a truthy value that is
  not a string, and \<^verbatim>\<open>volunteer.name\<close> throws when no user has the caller's id: both
  end in the \<^verbatim>\<open>catch\<close>, before anything is written.
\<close>

definition next_camp_id :: "camp list \<Rightarrow> int" where
  "next_camp_id cs = (if length cs > 0 then round_int (Max (set (map c_id cs)) + 1) else 1)"

definition parse_resources :: "jsvalue \<Rightarrow> string list option" where
  "parse_resources resources =
     (if truthy resources then
        (case resources of
           JStr s \<Rightarrow> Some (filter (\<lambda>r. r \<noteq> []) (map trim (split_on CHR '','' s)))
         | _ \<Rightarrow> None)
      else Some [''Basic supplies''])"

record camp_body =
  b_name :: jsvalue
  b_beds :: jsvalue
  b_resources :: jsvalue
  b_contact :: jsvalue
  b_ambulance :: jsvalue

definition add_camp :: "claims \<Rightarrow> camp_body \<Rightarrow> string \<Rightarrow> db \<Rightarrow> (error + camp) \<times> db" where
  "add_camp user body now st =
     (if u_role user \<noteq> ''volunteer'' then (Inl Forbidden, st)
      else if \<not> truthy (b_name body) \<or> \<not> truthy (b_beds body) then (Inl InvalidInput, st)
      else case parse_resources (b_resources body) of
        None \<Rightarrow> (Inl Internal, st)
      | Some res \<Rightarrow>
         (case find_user (u_id user) (users st) of
            None \<Rightarrow> (Inl Internal, st)
          | Some volunteer \<Rightarrow>
             (let newCamp =
                    \<lparr>c_id = next_camp_id (camps st),
                     c_name = b_name body,
                     c_beds = parseInt (b_beds body),
                     c_originalBeds = parseInt (b_beds body),
                     c_resources = res,
                     c_contact = js_or (b_contact body) (JStr ''''),
                     c_ambulance = js_or (b_ambulance body) (JStr ''No''),
                     c_type = ''volunteer-added'',
                     c_addedBy = get_prop volunteer ''name'',
                     c_addedDate = now\<rparr>
              in (Inr newCamp, st\<lparr>camps := camps st @ [newCamp]\<rparr>))))"

text \<open>\<^verbatim>\<open>DELETE /api/camps/:id\<close>.\<close>

definition delete_camp :: "claims \<Rightarrow> string \<Rightarrow> db \<Rightarrow> (error + unit) \<times> db" where
  "delete_camp user pid st =
     (if u_role user \<noteq> ''volunteer'' then (Inl Forbidden, st)
      else case parseInt (JStr pid) of
        None \<Rightarrow> (Inl NotFound, st)
      | Some campId \<Rightarrow>
         (case findIndex (\<lambda>c. c_id c = campId) (camps st) of
            None \<Rightarrow> (Inl NotFound, st)
          | Some campIndex \<Rightarrow>
             if c_type (camps st ! campIndex) = ''default'' then (Inl Forbidden, st)
             else (Inr (),
                   st\<lparr>selections := filter (\<lambda>s. s_campId s \<noteq> campId) (selections st),
                      camps := splice1 campIndex (camps st)\<rparr>)))"

subsection \<open>Sequences of requests\<close>

datatype request =
  SelectCamp claims string string
| CancelSelection claims
| AddCamp claims camp_body string
| DeleteCamp claims string

fun step :: "request \<Rightarrow> db \<Rightarrow> db" where
  "step (SelectCamp user pid now) st = snd (select_camp user pid now st)"
| "step (CancelSelection user) st = snd (cancel_selection user st)"
| "step (AddCamp user body now) st = snd (add_camp user body now st)"
| "step (DeleteCamp user pid) st = snd (delete_camp user pid st)"

definition run :: "request list \<Rightarrow> db \<Rightarrow> db" where
  "run reqs st = fold step reqs st"

subsection \<open>Registration, login and token verification\<close>

text \<open>
  \<^verbatim>\<open>jwt.sign({ id, email, role }, JWT_SECRET, { expiresIn: "24h" })\<close>: the token is its
  payload; the signature and the expiry are not modelled.
\<close>

definition sign_token :: "jsvalue \<Rightarrow> jsvalue \<Rightarrow> jsvalue \<Rightarrow> jsobject" where
  "sign_token i e r = [(''id'', i), (''email'', e), (''role'', r)]"

record register_body =
  r_name :: jsvalue
  r_email :: jsvalue
  r_password :: jsvalue
  r_role :: jsvalue
  r_age :: jsvalue
  r_contact :: jsvalue
  r_address :: jsvalue
  r_needs :: jsvalue
  r_skills :: jsvalue
  r_availability :: jsvalue

record auth_response =
  a_message :: string
  a_user :: jsobject
  a_token :: jsobject

text \<open>
  \<^verbatim>\<open>POST /api/register\<close>. \<open>bcrypt_hash\<close> stands for \<^verbatim>\<open>bcrypt.hash(password, 10)\<close> on a
  string; on any other value the library rejects and the handler answers 500. What is
  pushed to \<^verbatim>\<open>users.json\<close> and what is sent both go through \<^verbatim>\<open>JSON.stringify\<close>.
\<close>

definition register ::
  "(string \<Rightarrow> string) \<Rightarrow> register_body \<Rightarrow> string \<Rightarrow> db \<Rightarrow> (error + auth_response) \<times> db" where
  "register bcrypt_hash body now st =
     (if \<not> truthy (r_name body) \<or> \<not> truthy (r_email body) \<or> \<not> truthy (r_password body)
         \<or> \<not> truthy (r_role body) then (Inl InvalidInput, st)
      else if r_role body \<notin> set [JStr ''volunteer'', JStr ''refugee''] then (Inl InvalidInput, st)
      else case find (\<lambda>user. get_prop user ''email'' = r_email body) (users st) of
        Some existing \<Rightarrow> (Inl Conflict, st)
      | None \<Rightarrow>
         (case r_password body of
            JStr password \<Rightarrow>
              (let newUser =
                     [(''id'', JNum (int (length (users st)) + 1)),
                      (''name'', r_name body),
                      (''email'', r_email body),
                      (''password'', JStr (bcrypt_hash password)),
                      (''role'', r_role body),
                      (''age'', jsonNumber (parseInt (r_age body))),
                      (''contact'', r_contact body),
                      (''registeredDate'', JStr now)]
                     @ (if r_role body = JStr ''refugee''
                        then [(''address'', r_address body), (''needs'', r_needs body)]
                        else if r_role body = JStr ''volunteer''
                        then [(''skills'', r_skills body), (''availability'', r_availability body)]
                        else []);
                   token = sign_token (get_prop newUser ''id'') (get_prop newUser ''email'')
                             (get_prop newUser ''role'');
                   userResponse = omit ''password'' newUser
               in (Inr \<lparr>a_message = ''User registered successfully'',
                        a_user = stringify userResponse,
                        a_token = token\<rparr>,
                   st\<lparr>users := users st @ [stringify newUser]\<rparr>))
          | _ \<Rightarrow> (Inl Internal, st)))"

text \<open>
  \<^verbatim>\<open>POST /api/login\<close>. \<open>bcrypt_compare\<close> stands for \<^verbatim>\<open>bcrypt.compare\<close> on two strings;
  with anything else it rejects.
\<close>

definition login ::
  "(string \<Rightarrow> string \<Rightarrow> bool) \<Rightarrow> jsvalue \<Rightarrow> jsvalue \<Rightarrow> db \<Rightarrow> (error + auth_response) \<times> db" where
  "login bcrypt_compare email password st =
     (if \<not> truthy email \<or> \<not> truthy password then (Inl InvalidInput, st)
      else case find (\<lambda>u. get_prop u ''email'' = email) (users st) of
        None \<Rightarrow> (Inl InvalidCredentials, st)
      | Some user \<Rightarrow>
         (case (password, get_prop user ''password'') of
            (JStr p, JStr h) \<Rightarrow>
              if \<not> bcrypt_compare p h then (Inl InvalidCredentials, st)
              else
                (let token = sign_token (get_prop user ''id'') (get_prop user ''email'')
                               (get_prop user ''role'');
                     userResponse = omit ''password'' user
                 in (Inr \<lparr>a_message = ''Login successful'',
                          a_user = stringify userResponse,
                          a_token = token\<rparr>, st))
          | _ \<Rightarrow> (Inl Internal, st)))"

text \<open>\<^verbatim>\<open>GET /api/verify\<close>.\<close>

definition verify :: "claims \<Rightarrow> db \<Rightarrow> (error + jsobject) \<times> db" where
  "verify user st =
     (case find_user (u_id user) (users st) of
        None \<Rightarrow> (Inl NotFound, st)
      | Some u \<Rightarrow> (Inr (stringify (omit ''password'' u)), st))"

subsection \<open>The seeded database\<close>

text \<open>\<^verbatim>\<open>initializeDatabase\<close> on a directory with no file yet.\<close>

definition defaultCamps :: "string \<Rightarrow> camp list" where
  "defaultCamps now =
     [\<lparr>c_id = 1, c_name = JStr ''Central School Grounds'', c_beds = Some 24,
       c_originalBeds = Some 24,
       c_resources = [''Food'', ''Water'', ''Medical Aid'', ''Blankets''],
       c_contact = JStr ''+91 98765 43210'', c_ambulance = JStr ''Yes'',
       c_type = ''default'', c_addedBy = JStr ''System'', c_addedDate = now\<rparr>,
      \<lparr>c_id = 2, c_name = JStr ''Community Hall'', c_beds = Some 12,
       c_originalBeds = Some 12,
       c_resources = [''Food'', ''Water'', ''Blankets'', ''Clothing''],
       c_contact = JStr ''+91 98765 11223'', c_ambulance = JStr ''Nearby'',
       c_type = ''default'', c_addedBy = JStr ''System'', c_addedDate = now\<rparr>,
      \<lparr>c_id = 3, c_name = JStr ''Government High School'', c_beds = Some 30,
       c_originalBeds = Some 30,
       c_resources = [''Food'', ''Water'', ''First Aid'', ''Hygiene Kits''],
       c_contact = JStr ''+91 98765 77889'', c_ambulance = JStr ''Yes'',
       c_type = ''default'', c_addedBy = JStr ''System'', c_addedDate = now\<rparr>]"

definition initializeDatabase :: "string \<Rightarrow> db" where
  "initializeDatabase now = \<lparr>users = [], camps = defaultCamps now, selections = []\<rparr>"

subsection \<open>The invariants\<close>

text \<open>At most one selection per user: no user id occurs twice among the selections.\<close>

definition one_selection_per_user :: "db \<Rightarrow> bool" where
  "one_selection_per_user st = distinct (map s_userId (selections st))"

text \<open>The number of selections that reference a camp id.\<close>

definition selection_count :: "int \<Rightarrow> selection list \<Rightarrow> nat" where
  "selection_count cid sels = length (filter (\<lambda>s. s_campId s = cid) sels)"



text \<open>Bed bounds: every camp has integer bed counts with 0 \<le> current \<le> original.\<close>

definition camp_bounded :: "camp \<Rightarrow> bool" where
  "camp_bounded c =
     (case (c_beds c, c_originalBeds c) of
        (Some b, Some ob) \<Rightarrow> 0 \<le> b \<and> b \<le> ob
      | _ \<Rightarrow> False)"

definition bed_bounds :: "db \<Rightarrow> bool" where
  "bed_bounds st = list_all camp_bounded (camps st)"


definition selections_reference_camps :: "db \<Rightarrow> bool" where
  "selections_reference_camps st =
     list_all (\<lambda>s. s_campId s \<in> set (map c_id (camps st))) (selections st)"


text \<open>Selection ids are unique.\<close>

definition unique_selection_ids :: "db \<Rightarrow> bool" where
  "unique_selection_ids st = distinct (map s_id (selections st))"

text \<open>
  The caller of a request is registered when \<^verbatim>\<open>users.json\<close> holds a user with the id
  of the token.
\<close>

definition registered :: "db \<Rightarrow> claims \<Rightarrow> bool" where
  "registered st user = (find_user (u_id user) (users st) \<noteq> None)"

text \<open>
  AddCamp goes through to its write exactly when the caller is a registered volunteer,
  name and bed count are truthy and the resources are absent or a string.
\<close>

definition add_camp_accepts :: "db \<Rightarrow> claims \<Rightarrow> camp_body \<Rightarrow> bool" where
  "add_camp_accepts st user body =
     (u_role user = ''volunteer'' \<and> truthy (b_name body) \<and> truthy (b_beds body) \<and>
      parse_resources (b_resources body) \<noteq> None \<and> registered st user)"








text \<open>
  The requests under which the bed bounds are kept: the bed count of an AddCamp that
  goes through reads as a non-negative integer.
\<close>

fun adds_nonneg :: "db \<Rightarrow> request \<Rightarrow> bool" where
  "adds_nonneg st (AddCamp user body now) =
     (add_camp_accepts st user body \<longrightarrow>
        (case parseInt (b_beds body) of None \<Rightarrow> False | Some n \<Rightarrow> 0 \<le> n))"
| "adds_nonneg st _ = True"

text \<open>
  The start states of the bed bounds: the bed counts are numbers (doubles), and every
  camp has a current count of at least 0 that leaves room under the original count for
  the selections that reference the camp.
\<close>

definition camp_doubles :: "camp \<Rightarrow> bool" where
  "camp_doubles c =
     ((case c_beds c of None \<Rightarrow> True | Some b \<Rightarrow> is_double b) \<and>
      (case c_originalBeds c of None \<Rightarrow> True | Some ob \<Rightarrow> is_double ob))"

definition bed_counts_double :: "db \<Rightarrow> bool" where
  "bed_counts_double st = list_all camp_doubles (camps st)"

definition camp_has_room :: "selection list \<Rightarrow> camp \<Rightarrow> bool" where
  "camp_has_room sels c =
     (case (c_beds c, c_originalBeds c) of
        (Some b, Some ob) \<Rightarrow> 0 \<le> b \<and> b + int (selection_count (c_id c) sels) \<le> ob
      | _ \<Rightarrow> False)"

definition beds_have_room :: "db \<Rightarrow> bool" where
  "beds_have_room st = list_all (camp_has_room (selections st)) (camps st)"

text \<open>
  What the handlers keep of that, in double arithmetic. \<open>give_back\<close> is
  \<^verbatim>\<open>camp.beds += 1\<close>. Only the first camp with an id is ever found by a request, so only
  for it the selections count: giving back one bed for each of them does not exceed the
  original count.
\<close>

definition give_back :: "int \<Rightarrow> int" where
  "give_back b = round_int (b + 1)"

definition camp_kept :: "selection list \<Rightarrow> camp list \<Rightarrow> nat \<Rightarrow> bool" where
  "camp_kept sels cs j =
     (case (c_beds (cs ! j), c_originalBeds (cs ! j)) of
        (Some b, Some ob) \<Rightarrow>
          0 \<le> b \<and> b \<le> ob \<and> round_int b = b \<and> round_int ob = ob \<and>
          ((\<forall>i < j. c_id (cs ! i) \<noteq> c_id (cs ! j)) \<longrightarrow>
             (give_back ^^ selection_count (c_id (cs ! j)) sels) b \<le> ob)
      | _ \<Rightarrow> False)"

definition bounds_kept :: "db \<Rightarrow> bool" where
  "bounds_kept st =
     (selections_reference_camps st \<and>
      (\<forall>j < length (camps st). camp_kept (selections st) (camps st) j))"

subsection \<open>What a request finds in the store\<close>

text \<open>
  \<^verbatim>\<open>camps.find((c) => c.id === campId)\<close> for the path parameter of a request, and
  whether \<^verbatim>\<open>selections.find((s) => s.userId === req.user.id)\<close> finds a selection.
\<close>

definition lookup_camp :: "string \<Rightarrow> db \<Rightarrow> camp option" where
  "lookup_camp pid st =
     (case parseInt (JStr pid) of
        None \<Rightarrow> None
      | Some campId \<Rightarrow> find (\<lambda>c. c_id c = campId) (camps st))"

definition has_selection :: "db \<Rightarrow> claims \<Rightarrow> bool" where
  "has_selection st user = (find (\<lambda>s. s_userId s = u_id user) (selections st) \<noteq> None)"

subsection \<open>Example data\<close>

text \<open>
  A database to run the handlers on: the seeded camps and four registered users, three
  refugees (ids 1 to 3) and a volunteer (id 4), with the tokens they were issued.
\<close>

definition ex_body :: "string \<Rightarrow> string \<Rightarrow> string \<Rightarrow> register_body" where
  "ex_body n e r =
     \<lparr>r_name = JStr n, r_email = JStr e, r_password = JStr ''secret'', r_role = JStr r,
      r_age = JStr ''30'', r_contact = JStr ''555'', r_address = JUndefined,
      r_needs = JUndefined, r_skills = JUndefined, r_availability = JUndefined\<rparr>"

definition ex_hash :: "string \<Rightarrow> string" where
  "ex_hash p = ''$2b$10$'' @ rev p"

definition ex_register :: "register_body \<Rightarrow> db \<Rightarrow> db" where
  "ex_register body st = snd (register ex_hash body ''2024-01-01T00:00:00.000Z'' st)"

definition ex_db :: db where
  "ex_db =
     ex_register (ex_body ''Dev'' ''dev@example.org'' ''volunteer'')
       (ex_register (ex_body ''Chitra'' ''chitra@example.org'' ''refugee'')
         (ex_register (ex_body ''Binu'' ''binu@example.org'' ''refugee'')
           (ex_register (ex_body ''Asha'' ''asha@example.org'' ''refugee'')
             (initializeDatabase ''2024-01-01T00:00:00.000Z''))))"

definition asha :: claims where
  "asha = \<lparr>u_id = 1, u_email = JStr ''asha@example.org'', u_role = ''refugee''\<rparr>"

definition binu :: claims where
  "binu = \<lparr>u_id = 2, u_email = JStr ''binu@example.org'', u_role = ''refugee''\<rparr>"

definition chitra :: claims where
  "chitra = \<lparr>u_id = 3, u_email = JStr ''chitra@example.org'', u_role = ''refugee''\<rparr>"

definition dev :: claims where
  "dev = \<lparr>u_id = 4, u_email = JStr ''dev@example.org'', u_role = ''volunteer''\<rparr>"

definition ex_camp_body :: "jsvalue \<Rightarrow> camp_body" where
  "ex_camp_body beds =
     \<lparr>b_name = JStr ''Town Library'', b_beds = beds, b_resources = JStr ''Food, Water'',
      b_contact = JUndefined, b_ambulance = JUndefined\<rparr>"

text \<open>
  The example database after a volunteer has added a camp with 9007199254740994 beds
  (2^53 + 2, a double), and the example database with 9007199254740992 (2^53) as the id
  of its third camp.
\<close>

definition ex_big_db :: db where
  "ex_big_db = run [AddCamp dev (ex_camp_body (JStr ''9007199254740994'')) ''t0''] ex_db"


section \<open>Array helper facts\<close>

lemma findIndex_None: "findIndex P xs = None \<longleftrightarrow> (\<forall>x \<in> set xs. \<not> P x)"
  by (induction xs) auto

lemma findIndex_Some:
  "findIndex P xs = Some i \<Longrightarrow> i < length xs \<and> P (xs ! i) \<and> (\<forall>j < i. \<not> P (xs ! j))"
proof (induction xs arbitrary: i)
  case Nil
  then show ?case by simp
next
  case (Cons x xs)
  show ?case
  proof (cases "P x")
    case True
    with Cons.prems show ?thesis by simp
  next
    case False
    with Cons.prems obtain k where k: "findIndex P xs = Some k" "i = Suc k"
      by auto
    from Cons.IH [OF k(1)] False k(2) show ?thesis
      by (auto simp: less_Suc_eq_0_disj)
  qed
qed

lemma find_None: "find P xs = None \<longleftrightarrow> (\<forall>x \<in> set xs. \<not> P x)"
  by (induction xs) auto

lemma splice1_ge: "length xs \<le> i \<Longrightarrow> splice1 i xs = xs"
  by (simp add: splice1_def)

lemma splice1_decomp:
  "i < length xs \<Longrightarrow> xs = take i xs @ xs ! i # drop (Suc i) xs"
  by (simp add: id_take_nth_drop [symmetric])

lemma set_splice1: "set (splice1 i xs) \<subseteq> set xs"
  unfolding splice1_def by (auto dest: in_set_takeD in_set_dropD)

lemma distinct_map_splice1: "distinct (map f xs) \<Longrightarrow> distinct (map f (splice1 i xs))"
proof (cases "i < length xs")
  case True
  assume d: "distinct (map f xs)"
  from True have "xs = take i xs @ xs ! i # drop (Suc i) xs"
    by (rule splice1_decomp)
  then have "map f xs = map f (take i xs) @ f (xs ! i) # map f (drop (Suc i) xs)"
    by (metis list.simps(9) map_append)
  with d have "distinct (map f (take i xs) @ f (xs ! i) # map f (drop (Suc i) xs))"
    by simp
  then show ?thesis
    by (simp add: splice1_def)
next
  case False
  assume "distinct (map f xs)"
  with False show ?thesis by (simp add: splice1_ge)
qed

lemma find_findIndex:
  "find P xs = (case findIndex P xs of None \<Rightarrow> None | Some i \<Rightarrow> Some (xs ! i))"
  by (induction xs) (auto split: option.splits)

lemma findIndex_update:
  "findIndex P xs = Some i \<Longrightarrow> P y \<Longrightarrow> findIndex P (xs[i := y]) = Some i"
proof (induction xs arbitrary: i)
  case Nil
  then show ?case by simp
next
  case (Cons x xs)
  then show ?case
    by (cases i) (auto split: if_splits)
qed

lemma findIndex_append_last:
  "findIndex P xs = None \<Longrightarrow> P x \<Longrightarrow> findIndex P (xs @ [x]) = Some (length xs)"
  by (induction xs) (auto split: if_splits)

lemma splice1_append_last: "splice1 (length xs) (xs @ [x]) = xs"
  by (simp add: splice1_def)

lemma splice1_remove1:
  "findIndex P xs = Some i \<Longrightarrow> splice1 i xs = remove1 (xs ! i) xs"
proof (induction xs arbitrary: i)
  case Nil
  then show ?case by simp
next
  case (Cons x xs)
  show ?case
  proof (cases "P x")
    case True
    with Cons.prems show ?thesis by (simp add: splice1_def)
  next
    case False
    with Cons.prems obtain k where k: "findIndex P xs = Some k" "i = Suc k"
      by auto
    from findIndex_Some [OF k(1)] have "P (xs ! k)" by simp
    with False have "x \<noteq> xs ! k" by auto
    with Cons.IH [OF k(1)] k(2) show ?thesis
      by (simp add: splice1_def)
  qed
qed

lemma toNumber_pos: "0 < toNumber v \<Longrightarrow> v = Some (toNumber v)"
  by (cases v) (simp_all add: toNumber_def)

section \<open>Rounding to doubles\<close>

lemma bits_bounds: "0 < n \<Longrightarrow> 2 ^ (bits n - 1) \<le> n \<and> n < 2 ^ bits n"
proof (induction n rule: bits.induct)
  case (1 n)
  show ?case
  proof (cases "n div 2 \<le> 0")
    case True
    with "1.prems" have "n = 1" by presburger
    then show ?thesis by (simp add: bits.simps)
  next
    case False
    with "1.IH" "1.prems" have ih: "2 ^ (bits (n div 2) - 1) \<le> n div 2" "n div 2 < 2 ^ bits (n div 2)"
      by simp_all
    from False have bp: "0 < bits (n div 2)"
      by (simp add: bits.simps)
    have b: "bits n = Suc (bits (n div 2))"
      using "1.prems" by (simp add: bits.simps)
    from ih(1) have "2 * 2 ^ (bits (n div 2) - 1) \<le> n" by presburger
    moreover from bp have "(2::int) * 2 ^ (bits (n div 2) - 1) = 2 ^ bits (n div 2)"
      by (cases "bits (n div 2)") simp_all
    moreover from ih(2) have "n < 2 * 2 ^ bits (n div 2)" by presburger
    ultimately show ?thesis
      by (simp add: b)
  qed
qed

lemma bits_unique:
  assumes "2 ^ k \<le> n" and "n < 2 ^ Suc k"
  shows "bits n = Suc k"
proof -
  have "(0::int) < 2 ^ k" by simp
  with assms(1) have pos: "0 < n" by linarith
  from bits_bounds [OF pos] have lo: "2 ^ (bits n - 1) \<le> n" and hi: "n < 2 ^ bits n"
    by simp_all
  from assms(1) hi have "(2::int) ^ k < 2 ^ bits n" by linarith
  then have a: "k < bits n"
    by (rule power_less_imp_less_exp [rotated]) simp
  from lo assms(2) have "(2::int) ^ (bits n - 1) < 2 ^ Suc k" by linarith
  then have "bits n - 1 < Suc k"
    by (rule power_less_imp_less_exp [rotated]) simp
  with a show ?thesis by simp
qed

lemma bits_mono: "m \<le> n \<Longrightarrow> bits m \<le> bits n"
proof (cases "m \<le> 0")
  case True
  then show ?thesis by (simp add: bits.simps)
next
  case False
  assume mn: "m \<le> n"
  with False have pm: "0 < m" and pn: "0 < n" by simp_all
  from bits_bounds [OF pm] bits_bounds [OF pn] mn
  have "(2::int) ^ (bits m - 1) < 2 ^ bits n" by linarith
  then have "bits m - 1 < bits n"
    by (rule power_less_imp_less_exp [rotated]) simp
  then show ?thesis by simp
qed

lemma div_mult_le_int: "0 < (U::int) \<Longrightarrow> m div U * U \<le> m"
  using div_mult_mod_eq [of m U] pos_mod_sign [of U m] by linarith

lemma lt_div_mult_int:
  assumes "0 < (U::int)"
  shows "m < (m div U + 1) * U"
proof -
  have "(m div U + 1) * U = m div U * U + U"
    by (simp add: algebra_simps)
  with div_mult_mod_eq [of m U] pos_mod_bound [OF assms, of m] show ?thesis
    by linarith
qed

lemma div_lt_int:
  assumes "0 < (U::int)" and "m < k * U"
  shows "m div U < k"
proof (rule ccontr)
  assume "\<not> m div U < k"
  then have "k \<le> m div U" by simp
  with assms(1) have "k * U \<le> m div U * U"
    by (simp add: mult_right_mono)
  with div_mult_le_int [OF assms(1), of m] assms(2) show False
    by linarith
qed

lemma div_ge_int:
  assumes "0 < (U::int)" and "k * U \<le> m"
  shows "k \<le> m div U"
proof (rule ccontr)
  assume "\<not> k \<le> m div U"
  then have "m div U + 1 \<le> k" by simp
  with assms(1) have "(m div U + 1) * U \<le> k * U"
    by (simp add: mult_right_mono)
  with lt_div_mult_int [OF assms(1), of m] assms(2) show False
    by linarith
qed

lemma big_shape:
  assumes "2 ^ 53 \<le> m"
  defines "e \<equiv> bits m - 53"
  shows "1 \<le> e" and "bits m = 53 + e"
    and "2 ^ 52 \<le> m div 2 ^ e" and "m div 2 ^ e < 2 ^ 53"
    and "0 \<le> m mod 2 ^ e" and "m mod 2 ^ e < 2 ^ e"
proof -
  have "(0::int) < 2 ^ 53" by simp
  with assms(1) have pos: "0 < m" by linarith
  from bits_mono [OF assms(1)] bits_unique [of 53 "2 ^ 53"]
  have b54: "54 \<le> bits m" by simp
  then show e1: "1 \<le> e" and bm: "bits m = 53 + e"
    by (simp_all add: e_def)
  from bits_bounds [OF pos] bm have lo: "2 ^ (52 + e) \<le> m" and hi: "m < 2 ^ (53 + e)"
    by simp_all
  have p: "(0::int) < 2 ^ e" by simp
  from lo have "2 ^ 52 * 2 ^ e \<le> m" by (simp only: power_add)
  with p show "2 ^ 52 \<le> m div 2 ^ e"
    by (rule div_ge_int)
  from hi have "m < 2 ^ 53 * 2 ^ e" by (simp only: power_add)
  with p show "m div 2 ^ e < 2 ^ 53"
    by (rule div_lt_int)
  show "0 \<le> m mod 2 ^ e" "m mod 2 ^ e < 2 ^ e"
    by simp_all
qed

lemma round_mag_eval:
  assumes e: "1 \<le> e" and q: "2 ^ 52 \<le> q" "q < 2 ^ 53" and r: "0 \<le> r" "r < 2 ^ e"
  shows "round_mag (q * 2 ^ e + r) =
     (if 2 * r < 2 ^ e \<or> (2 * r = 2 ^ e \<and> even q) then q * 2 ^ e else (q + 1) * 2 ^ e)"
proof -
  let ?m = "q * 2 ^ e + r"
  have p: "(0::int) < 2 ^ e" by simp
  have A: "2 ^ 52 * 2 ^ e \<le> q * 2 ^ e"
    by (rule mult_right_mono [OF q(1)]) simp
  have lo: "2 ^ (52 + e) \<le> ?m"
    unfolding power_add using A r(1) by linarith
  from q(2) have "q + 1 \<le> 2 ^ 53" by simp
  then have B: "(q + 1) * 2 ^ e \<le> 2 ^ 53 * 2 ^ e"
    by (rule mult_right_mono) simp
  have C: "(q + 1) * 2 ^ e = q * 2 ^ e + 2 ^ e"
    by (simp add: algebra_simps)
  have D: "(2::int) ^ Suc (52 + e) = 2 ^ 53 * 2 ^ e"
    by (simp add: power_add)
  have hi: "?m < 2 ^ Suc (52 + e)"
    unfolding D using B C r(2) by linarith
  from bits_unique [OF lo hi] have b: "bits ?m - 53 = e"
    by simp
  have "(2::int) ^ 53 \<le> 2 ^ (52 + e)"
    using e by (intro power_increasing) simp_all
  with lo have big: "\<not> ?m < 2 ^ 53"
    by linarith
  have d: "?m div 2 ^ e = q"
    using r by (simp add: div_pos_pos_trivial)
  have m: "?m mod 2 ^ e = r"
    using r by (simp add: mod_pos_pos_trivial)
  show ?thesis
    unfolding round_mag_def [of ?m] Let_def b d m
    using big by simp
qed

lemma big_decomp:
  assumes "2 ^ 53 \<le> (m::int)"
  obtains e q r where "1 \<le> e" and "2 ^ 52 \<le> q" and "q < 2 ^ 53" and "0 \<le> r" and "r < 2 ^ e"
    and "m = q * 2 ^ e + r"
proof -
  let ?e = "bits m - 53"
  from big_shape [OF assms]
  have "1 \<le> ?e" "2 ^ 52 \<le> m div 2 ^ ?e" "m div 2 ^ ?e < 2 ^ 53"
    "0 \<le> m mod 2 ^ ?e" "m mod 2 ^ ?e < 2 ^ ?e"
    by simp_all
  moreover have "m = m div 2 ^ ?e * 2 ^ ?e + m mod 2 ^ ?e"
    by (rule div_mult_mod_eq [symmetric])
  ultimately show thesis
    by (rule that)
qed

lemma round_mag_small: "m \<le> 2 ^ 53 \<Longrightarrow> round_mag m = m"
proof (cases "m < 2 ^ 53")
  case True
  then show ?thesis by (simp add: round_mag_def)
next
  case False
  assume "m \<le> 2 ^ 53"
  with False have "m = 2 ^ 52 * 2 ^ 1 + 0" by simp
  moreover have "round_mag (2 ^ 52 * 2 ^ 1 + 0) = 2 ^ 52 * 2 ^ 1"
    by (subst round_mag_eval) simp_all
  ultimately show ?thesis by simp
qed

lemma round_mag_multiple:
  assumes e: "1 \<le> e" and k: "2 ^ 52 \<le> k" "k \<le> 2 ^ 53"
  shows "round_mag (k * 2 ^ e) = k * 2 ^ e"
proof (cases "k < 2 ^ 53")
  case True
  from round_mag_eval [OF e k(1) True, of 0] show ?thesis
    by simp
next
  case False
  with k(2) have k53: "k = 2 ^ 53" by simp
  have "round_mag (2 ^ 52 * 2 ^ Suc e + 0) = 2 ^ 52 * 2 ^ Suc e"
    by (subst round_mag_eval) simp_all
  then show ?thesis
    by (simp add: k53)
qed

lemma round_mag_idem: "round_mag (round_mag m) = round_mag m"
proof (cases "m < 2 ^ 53")
  case True
  then show ?thesis by (simp add: round_mag_def)
next
  case False
  then have "2 ^ 53 \<le> m" by simp
  then obtain e q r where s: "1 \<le> e" "2 ^ 52 \<le> q" "q < 2 ^ 53" "0 \<le> r" "r < 2 ^ e"
    and m: "m = q * 2 ^ e + r"
    by (rule big_decomp)
  from round_mag_eval [OF s] m
  have "round_mag m = q * 2 ^ e \<or> round_mag m = (q + 1) * 2 ^ e"
    by (simp split: if_splits)
  then show ?thesis
  proof
    assume a: "round_mag m = q * 2 ^ e"
    from round_mag_multiple [OF s(1) s(2)] s(3) a show ?thesis by simp
  next
    assume a: "round_mag m = (q + 1) * 2 ^ e"
    from s(2,3) have "2 ^ 52 \<le> q + 1" "q + 1 \<le> 2 ^ 53" by simp_all
    from round_mag_multiple [OF s(1) this] a show ?thesis by simp
  qed
qed

lemma shape_bounds:
  assumes "2 ^ 52 \<le> (q::int)" and "q < 2 ^ 53" and "0 \<le> r" and "r < 2 ^ e"
  shows "2 ^ (52 + e) \<le> q * 2 ^ e + r" and "q * 2 ^ e + r < 2 ^ (53 + e)"
    and "(q + 1) * 2 ^ e \<le> 2 ^ (53 + e)" and "2 ^ (52 + e) \<le> q * 2 ^ e"
proof -
  have A: "2 ^ 52 * 2 ^ e \<le> q * 2 ^ e"
    by (rule mult_right_mono [OF assms(1)]) simp
  from assms(2) have "q + 1 \<le> 2 ^ 53" by simp
  then have B: "(q + 1) * 2 ^ e \<le> 2 ^ 53 * 2 ^ e"
    by (rule mult_right_mono) simp
  have C: "(q + 1) * 2 ^ e = q * 2 ^ e + 2 ^ e"
    by (simp add: algebra_simps)
  show "2 ^ (52 + e) \<le> q * 2 ^ e + r"
    unfolding power_add using A assms(3) by linarith
  show "q * 2 ^ e + r < 2 ^ (53 + e)"
    unfolding power_add using B C assms(4) by linarith
  show "(q + 1) * 2 ^ e \<le> 2 ^ (53 + e)"
    unfolding power_add using B by linarith
  show "2 ^ (52 + e) \<le> q * 2 ^ e"
    unfolding power_add using A by linarith
qed

lemma round_mag_between:
  assumes "1 \<le> e" and "2 ^ 52 \<le> q" and "q < 2 ^ 53" and "0 \<le> r" and "r < 2 ^ e"
  shows "q * 2 ^ e \<le> round_mag (q * 2 ^ e + r)" and "round_mag (q * 2 ^ e + r) \<le> (q + 1) * 2 ^ e"
proof -
  have C: "(q + 1) * 2 ^ e = q * 2 ^ e + 2 ^ e"
    by (simp add: algebra_simps)
  have p: "(0::int) < 2 ^ e" by simp
  from round_mag_eval [OF assms]
  have "round_mag (q * 2 ^ e + r) = q * 2 ^ e \<or> round_mag (q * 2 ^ e + r) = (q + 1) * 2 ^ e"
    by (simp split: if_splits)
  with C p show "q * 2 ^ e \<le> round_mag (q * 2 ^ e + r)"
    and "round_mag (q * 2 ^ e + r) \<le> (q + 1) * 2 ^ e"
    by auto
qed

lemma round_mag_mono:
  assumes mn: "m \<le> m'"
  shows "round_mag m \<le> round_mag m'"
proof (cases "m' < 2 ^ 53")
  case True
  with mn show ?thesis by (simp add: round_mag_def)
next
  case False
  then have "2 ^ 53 \<le> m'" by simp
  then obtain e' q' r' where s': "1 \<le> e'" "2 ^ 52 \<le> q'" "q' < 2 ^ 53" "0 \<le> r'" "r' < 2 ^ e'"
    and m': "m' = q' * 2 ^ e' + r'"
    by (rule big_decomp)
  note b' = shape_bounds [OF s'(2-5)]
  note r' = round_mag_between [OF s', folded m']
  show ?thesis
  proof (cases "m < 2 ^ 53")
    case True
    then have "round_mag m = m" by (simp add: round_mag_def)
    moreover have "(2::int) ^ 53 \<le> 2 ^ (52 + e')"
      using s'(1) by (intro power_increasing) simp_all
    ultimately show ?thesis
      using True b'(4) r'(1) by linarith
  next
    case False
    then have "2 ^ 53 \<le> m" by simp
    then obtain e q r where s: "1 \<le> e" "2 ^ 52 \<le> q" "q < 2 ^ 53" "0 \<le> r" "r < 2 ^ e"
      and m: "m = q * 2 ^ e + r"
      by (rule big_decomp)
    note b = shape_bounds [OF s(2-5)]
    note r = round_mag_between [OF s, folded m]
    from b(1) b'(2) mn m m' have "(2::int) ^ (52 + e) < 2 ^ (53 + e')"
      by linarith
    then have "52 + e < 53 + e'"
      by (rule power_less_imp_less_exp [rotated]) simp
    then have ee: "e \<le> e'" by simp
    show ?thesis
    proof (cases "e = e'")
      case False
      with ee have "53 + e \<le> 52 + e'" by simp
      then have "(2::int) ^ (53 + e) \<le> 2 ^ (52 + e')"
        by (intro power_increasing) simp_all
      with r(2) b(3) b'(4) r'(1) show ?thesis
        by linarith
    next
      case True
      note s'' = s'(2-5) [folded True]
      have C: "(q + 1) * 2 ^ e = q * 2 ^ e + 2 ^ e" "(q' + 1) * 2 ^ e = q' * 2 ^ e + 2 ^ e"
        by (simp_all add: algebra_simps)
      consider "q < q'" | "q = q'" | "q' < q" by linarith
      then show ?thesis
      proof cases
        case 1
        then have "q + 1 \<le> q'" by simp
        then have "(q + 1) * 2 ^ e \<le> q' * 2 ^ e"
          by (rule mult_right_mono) simp
        with r(2) r'(1) show ?thesis
          unfolding True by linarith
      next
        case 2
        with mn m m' True have rr: "r \<le> r'" by simp
        from round_mag_eval [OF s] round_mag_eval [OF s'] 2 True rr m m' C show ?thesis
          by (auto split: if_splits)
      next
        case 3
        then have "q' + 1 \<le> q" by simp
        then have "(q' + 1) * 2 ^ e \<le> q * 2 ^ e"
          by (rule mult_right_mono) simp
        with C(2) s(4) s'(5) True mn m m' show ?thesis
          by simp
      qed
    qed
  qed
qed

lemma four_le_power: "2 \<le> e \<Longrightarrow> (4::int) \<le> 2 ^ e"
  using power_increasing [of 2 e "2::int"] by simp

lemma round_mag_stuck:
  assumes pos: "0 < b" and rep: "round_mag b = b" and down: "round_mag (b - 1) = b"
  shows "round_mag (b + 1) = b"
proof (cases "b \<le> 2 ^ 53")
  case True
  then have "round_mag (b - 1) = b - 1"
    by (intro round_mag_small) simp
  with down show ?thesis by simp
next
  case False
  then have big: "2 ^ 53 \<le> b" by simp
  then obtain e q r where s: "1 \<le> e" "2 ^ 52 \<le> q" "q < 2 ^ 53" "0 \<le> r" "r < 2 ^ e"
    and b: "b = q * 2 ^ e + r"
    by (rule big_decomp)
  have C: "(q + 1) * 2 ^ e = q * 2 ^ e + 2 ^ e"
    by (simp add: algebra_simps)
  from round_mag_eval [OF s] rep b C s(5) have r0: "r = 0"
    by (auto split: if_splits)
  with b have bq: "b = q * 2 ^ e" by simp
  have one: "(1::int) < 2 ^ e"
    using s(1) by (metis one_less_numeral_iff one_less_power semiring_norm(76) less_eq_Suc_le One_nat_def)
  have up: "round_mag (q * 2 ^ e + 1) =
      (if (2::int) * 1 < 2 ^ e \<or> ((2::int) * 1 = 2 ^ e \<and> even q) then q * 2 ^ e
       else (q + 1) * 2 ^ e)"
    using one by (intro round_mag_eval [OF s(1-3)]) simp_all
  show ?thesis
  proof (cases "2 \<le> e")
    case True
    from four_le_power [OF True] up bq show ?thesis
      by simp
  next
    case False
    with s(1) have e1: "e = 1" by simp
    have q52: "2 ^ 52 < q"
    proof (rule ccontr)
      assume "\<not> 2 ^ 52 < q"
      with s(2) have "q = 2 ^ 52" by simp
      with bq e1 have "b = 2 ^ 53" by simp
      with False \<open>\<not> b \<le> 2 ^ 53\<close> show False by simp
    qed
    have "b - 1 = (q - 1) * 2 ^ e + 1"
      by (simp add: bq e1 algebra_simps)
    moreover have "round_mag ((q - 1) * 2 ^ e + 1) =
        (if (2::int) * 1 < 2 ^ e \<or> ((2::int) * 1 = 2 ^ e \<and> even (q - 1)) then (q - 1) * 2 ^ e
         else (q - 1 + 1) * 2 ^ e)"
      using q52 s(3) e1 by (intro round_mag_eval) simp_all
    ultimately have "even q"
      using down bq e1 by (auto split: if_splits)
    with up bq e1 show ?thesis
      by simp
  qed
qed

lemma round_mag_pos: "0 < m \<Longrightarrow> 0 < round_mag m"
proof -
  assume "0 < m"
  then have "1 \<le> m" by simp
  from round_mag_mono [OF this] round_mag_small [of 1] show ?thesis
    by simp
qed

lemma round_mag_nonneg: "0 \<le> m \<Longrightarrow> 0 \<le> round_mag m"
  using round_mag_mono [of 0 m] round_mag_small [of 0] by simp

lemma round_int_nonneg: "0 \<le> n \<Longrightarrow> round_int n = round_mag n"
  using round_mag_small [of 0] by (cases "n = 0") (simp_all add: round_int_def)

lemma round_int_small: "\<bar>n\<bar> \<le> 2 ^ 53 \<Longrightarrow> round_int n = n"
  by (simp add: round_int_def round_mag_small mult_sgn_abs)

lemma round_int_mono: "0 \<le> m \<Longrightarrow> m \<le> n \<Longrightarrow> round_int m \<le> round_int n"
  by (simp add: round_int_nonneg round_mag_mono)

lemma round_int_idem: "round_int (round_int n) = round_int n"
proof -
  consider "n = 0" | "0 < n" | "n < 0" by linarith
  then show ?thesis
  proof cases
    case 1
    then show ?thesis
      using round_mag_small [of 0] by (simp add: round_int_def)
  next
    case 2
    with round_mag_pos [of n] show ?thesis
      by (simp add: round_int_def round_mag_idem)
  next
    case 3
    with round_mag_pos [of "- n"] show ?thesis
      by (simp add: round_int_def round_mag_idem)
  qed
qed

lemma round_up_stuck:
  assumes up: "x < round_mag x"
  shows "round_mag (round_mag x + 1) = round_mag x"
proof (cases "x < 2 ^ 53")
  case True
  with up show ?thesis by (simp add: round_mag_def)
next
  case False
  then have "2 ^ 53 \<le> x" by simp
  then obtain e q r where s: "1 \<le> e" "2 ^ 52 \<le> q" "q < 2 ^ 53" "0 \<le> r" "r < 2 ^ e"
    and x: "x = q * 2 ^ e + r"
    by (rule big_decomp)
  have C: "(q + 1) * 2 ^ e = q * 2 ^ e + 2 ^ e"
    by (simp add: algebra_simps)
  from round_mag_eval [OF s] up x s(4)
  have y: "round_mag x = (q + 1) * 2 ^ e" and dec: "\<not> (2 * r < 2 ^ e \<or> (2 * r = 2 ^ e \<and> even q))"
    by (auto split: if_splits)
  show ?thesis
  proof (cases "q + 1 < 2 ^ 53")
    case q1: True
    have one: "(1::int) < 2 ^ e"
      using s(1) by (metis one_less_numeral_iff one_less_power semiring_norm(76) less_eq_Suc_le One_nat_def)
    from s(2) have q2: "2 ^ 52 \<le> q + 1" by simp
    have ev: "round_mag ((q + 1) * 2 ^ e + 1) =
        (if (2::int) * 1 < 2 ^ e \<or> ((2::int) * 1 = 2 ^ e \<and> even (q + 1)) then (q + 1) * 2 ^ e
         else (q + 1 + 1) * 2 ^ e)"
      using one by (intro round_mag_eval [OF s(1) q2 q1]) simp_all
    show ?thesis
    proof (cases "2 \<le> e")
      case True
      from four_le_power [OF True] ev y show ?thesis by simp
    next
      case False
      with s(1) have e1: "e = 1" by simp
      with s(4,5) dec have "r = 1" "odd q" by auto
      with ev y e1 show ?thesis by simp
    qed
  next
    case False
    with s(3) have q53: "q + 1 = 2 ^ 53" by simp
    have "round_mag (2 ^ 52 * 2 ^ Suc e + 1) =
        (if (2::int) * 1 < 2 ^ Suc e \<or> ((2::int) * 1 = 2 ^ Suc e \<and> even ((2::int) ^ 52))
         then 2 ^ 52 * 2 ^ Suc e else (2 ^ 52 + 1) * 2 ^ Suc e)"
    proof (intro round_mag_eval)
      have "(1::int) \<le> 2 ^ e" by simp
      then show "(1::int) < 2 ^ Suc e"
        unfolding power_Suc by linarith
    qed simp_all
    moreover have "(4::int) \<le> 2 ^ Suc e"
      using s(1) by (intro four_le_power) simp
    moreover have "(q + 1) * 2 ^ e = 2 ^ 52 * 2 ^ Suc e"
      by (simp add: q53)
    ultimately show ?thesis
      using y by simp
  qed
qed

subsection \<open>What \<^verbatim>\<open>parseInt\<close> returns\<close>

lemma is_double_round: "is_double n \<Longrightarrow> round_int n = n"
  by (auto simp: is_double_def round64_def split: if_splits)

lemma round64_double: "round64 x = Some n \<Longrightarrow> round_int n = n"
  by (auto simp: round64_def round_int_idem split: if_splits)

lemma first_digit_range: "0 \<le> n \<Longrightarrow> 0 \<le> first_digit n \<and> first_digit n \<le> 9"
proof (induction n rule: first_digit.induct)
  case (1 n)
  show ?case
  proof (cases "n < 10")
    case True
    with "1.prems" show ?thesis by (simp add: first_digit.simps)
  next
    case False
    with "1.prems" have "0 \<le> n div 10" by simp
    with "1.IH" False show ?thesis
      by (simp add: first_digit.simps [of n])
  qed
qed

lemma shortest_head_nonneg: "0 \<le> v \<Longrightarrow> 0 \<le> shortest_head v D ks"
proof (induction ks)
  case Nil
  then show ?case by simp
next
  case (Cons k ks)
  have p: "(0::int) < 10 ^ (D - k)" by simp
  from Cons.prems have "0 \<le> v div 10 ^ (D - k)"
    by (simp add: pos_imp_zdiv_nonneg_iff)
  then have "0 \<le> v div 10 ^ (D - k) * 10 ^ (D - k)"
    by simp
  with Cons show ?case
    by (simp add: Let_def)
qed

lemma parseInt_double: "parseInt x = Some n \<Longrightarrow> round_int n = n"
proof (cases x)
  case (JStr s)
  assume "parseInt x = Some n"
  with JStr show ?thesis
    by (auto simp: parseIntString_def Let_def round64_double split: if_splits)
next
  case (JNum m)
  assume a: "parseInt x = Some n"
  with JNum obtain v where v: "round64 m = Some v"
    and n: "n = (if \<bar>v\<bar> < 10 ^ 21 then v
                else sgn v * first_digit (shortest_head \<bar>v\<bar> (ndigits \<bar>v\<bar>) [1..<18]))"
    by (auto split: option.splits if_splits)
  show ?thesis
  proof (cases "\<bar>v\<bar> < 10 ^ 21")
    case True
    with n v show ?thesis by (simp add: round64_double)
  next
    case False
    let ?d = "first_digit (shortest_head \<bar>v\<bar> (ndigits \<bar>v\<bar>) [1..<18])"
    from first_digit_range [OF shortest_head_nonneg, of "\<bar>v\<bar>"]
    have "0 \<le> ?d" "?d \<le> 9" by simp_all
    then have "\<bar>sgn v * ?d\<bar> \<le> 2 ^ 53"
      by (simp add: abs_mult abs_sgn_eq)
    with n False show ?thesis
      by (simp add: round_int_small)
  qed
qed simp_all

subsection \<open>Giving back a bed\<close>

lemma give_back_mono: "0 \<le> a \<Longrightarrow> a \<le> b \<Longrightarrow> give_back a \<le> give_back b"
  by (simp add: give_back_def round_int_mono)

lemma give_back_ge: "0 \<le> b \<Longrightarrow> round_int b = b \<Longrightarrow> b \<le> give_back b"
  using round_int_mono [of b "b + 1"] by (simp add: give_back_def)

lemma give_back_double: "round_int (give_back b) = give_back b"
  by (simp add: give_back_def round_int_idem)

lemma give_back_funpow_nonneg: "0 \<le> b \<Longrightarrow> round_int b = b \<Longrightarrow>
    0 \<le> (give_back ^^ k) b \<and> round_int ((give_back ^^ k) b) = (give_back ^^ k) b"
proof (induction k)
  case 0
  then show ?case by simp
next
  case (Suc k)
  with give_back_ge [of "(give_back ^^ k) b"] show ?case
    by (simp add: give_back_double)
qed

lemma give_back_nonneg: "0 \<le> a \<Longrightarrow> 0 \<le> give_back a"
  using round_int_mono [of 0 "a + 1"] round_int_small [of 0] by (simp add: give_back_def)

lemma give_back_funpow_nonneg': "0 \<le> a \<Longrightarrow> 0 \<le> (give_back ^^ k) a"
  by (induction k) (simp_all add: give_back_nonneg)

lemma give_back_funpow_mono:
  "0 \<le> a \<Longrightarrow> a \<le> b \<Longrightarrow> (give_back ^^ k) a \<le> (give_back ^^ k) b"
  by (induction k) (simp_all add: give_back_mono give_back_funpow_nonneg')

lemma give_back_funpow_le:
  assumes "0 \<le> b" and "round_int b = b" and "k \<le> k'"
  shows "(give_back ^^ k) b \<le> (give_back ^^ k') b"
  using assms(3)
proof (induction k' rule: dec_induct)
  case base
  show ?case by simp
next
  case (step n)
  from give_back_funpow_nonneg [OF assms(1,2), of n]
  have "(give_back ^^ n) b \<le> give_back ((give_back ^^ n) b)"
    by (intro give_back_ge) simp_all
  with step show ?case by simp
qed

text \<open>Taking a bed and giving it back never ends above the count before.\<close>

lemma take_bed:
  assumes "0 < b" and "round_int b = b"
  shows "0 \<le> round_int (b - 1)" and "round_int (b - 1) \<le> b"
    and "give_back (round_int (b - 1)) \<le> b"
proof -
  from assms(1) have nn: "0 \<le> b - 1" by simp
  from round_int_mono [of 0 "b - 1"] nn round_int_small [of 0]
  show d0: "0 \<le> round_int (b - 1)" by simp
  from round_int_mono [OF nn, of b] assms(2)
  show le: "round_int (b - 1) \<le> b" by simp
  show "give_back (round_int (b - 1)) \<le> b"
  proof (cases "round_int (b - 1) = b")
    case True
    from assms have "round_mag b = b" "round_mag (b - 1) = b"
      using True nn by (simp_all add: round_int_nonneg)
    from round_mag_stuck [OF assms(1) this] assms(1) True show ?thesis
      by (simp add: give_back_def round_int_nonneg)
  next
    case False
    with le have "round_int (b - 1) + 1 \<le> b" by simp
    from round_int_mono [OF _ this] d0 assms(2) show ?thesis
      by (simp add: give_back_def)
  qed
qed

text \<open>Giving back \<open>k\<close> beds one by one stays below the sum rounded once.\<close>

lemma give_back_round: "0 \<le> x \<Longrightarrow> give_back (round_int x) \<le> round_int (x + 1)"
proof (cases "round_int x \<le> x")
  case True
  assume x: "0 \<le> x"
  from round_int_mono [of 0 x] x round_int_small [of 0] have "0 \<le> round_int x" by simp
  with True show ?thesis
    by (simp add: give_back_def round_int_mono)
next
  case False
  assume x: "0 \<le> x"
  with False have "x < round_mag x" by (simp add: round_int_nonneg)
  from round_up_stuck [OF this] x round_mag_nonneg [OF x]
  have "give_back (round_int x) = round_int x"
    by (simp add: give_back_def round_int_nonneg)
  with round_int_mono [OF x, of "x + 1"] show ?thesis
    by simp
qed

lemma give_back_funpow_round:
  assumes "0 \<le> b" and "round_int b = b"
  shows "(give_back ^^ k) b \<le> round_int (b + int k)"
proof (induction k)
  case 0
  with assms show ?case by simp
next
  case (Suc k)
  from give_back_funpow_nonneg [OF assms, of k] have "0 \<le> (give_back ^^ k) b" by simp
  from give_back_mono [OF this Suc]
  have "(give_back ^^ Suc k) b \<le> give_back (round_int (b + int k))"
    by simp
  also from assms(1) have "\<dots> \<le> round_int (b + int k + 1)"
    by (intro give_back_round) simp
  finally show ?case
    by (simp add: ac_simps)
qed

section \<open>One selection per user\<close>

lemma select_camp_one_selection:
  assumes "one_selection_per_user st"
  shows "one_selection_per_user (snd (select_camp user pid now st))"
  using assms
  by (auto simp: select_camp_def one_selection_per_user_def Let_def find_None
           split: option.splits)

lemma cancel_selection_one_selection:
  assumes "one_selection_per_user st"
  shows "one_selection_per_user (snd (cancel_selection user st))"
  using assms
  by (auto simp: cancel_selection_def one_selection_per_user_def Let_def distinct_map_splice1
           split: option.splits)

lemma add_camp_one_selection:
  assumes "one_selection_per_user st"
  shows "one_selection_per_user (snd (add_camp user body now st))"
  using assms
  by (auto simp: add_camp_def one_selection_per_user_def Let_def split: option.splits)

lemma delete_camp_one_selection:
  assumes "one_selection_per_user st"
  shows "one_selection_per_user (snd (delete_camp user pid st))"
  using assms
  by (auto simp: delete_camp_def one_selection_per_user_def Let_def distinct_map_filter
           split: option.splits)

lemma step_one_selection:
  "one_selection_per_user st \<Longrightarrow> one_selection_per_user (step r st)"
  by (cases r)
     (simp_all add: select_camp_one_selection cancel_selection_one_selection
        add_camp_one_selection delete_camp_one_selection)

text \<open>
  C3. Starting from a state in which every user has at most one selection, every state
  reached by any sequence of SelectCamp, CancelSelection, AddCamp and DeleteCamp requests
  has at most one selection per user.
\<close>

theorem one_selection_per_user_invariant:
  "one_selection_per_user st \<Longrightarrow> one_selection_per_user (run reqs st)"
  unfolding run_def
  by (induction reqs arbitrary: st) (simp_all add: step_one_selection)

theorem one_selection_per_user_invariant_witness:
  "one_selection_per_user ex_db \<and>
   one_selection_per_user
     (run [SelectCamp asha ''1'' ''t1'', SelectCamp asha ''2'' ''t2'', SelectCamp binu ''1'' ''t3'',
           AddCamp dev (ex_camp_body (JStr ''5'')) ''t4'', CancelSelection asha,
           SelectCamp chitra ''4'' ''t5'', DeleteCamp dev ''4''] ex_db)"
proof -
  have h: "one_selection_per_user ex_db"
    by code_simp
  from one_selection_per_user_invariant [OF h] h show ?thesis
    by simp
qed

section \<open>Selection ids\<close>

text \<open>
  C9. A new selection takes the number of stored selections plus one as its id. After
  Asha and Binu selected a camp (ids 1 and 2) and Asha cancelled, one selection with id 2
  is left, and Chitra's new selection gets the id 2 as well: the ids of the store are
  unique before her request and no longer after it.
\<close>

theorem selection_id_reused:
  "unique_selection_ids
     (run [SelectCamp asha ''1'' ''t1'', SelectCamp binu ''1'' ''t2'', CancelSelection asha] ex_db) \<and>
   map s_id (selections
     (run [SelectCamp asha ''1'' ''t1'', SelectCamp binu ''1'' ''t2'', CancelSelection asha,
           SelectCamp chitra ''1'' ''t3''] ex_db)) = [2, 2] \<and>
   \<not> unique_selection_ids
     (run [SelectCamp asha ''1'' ''t1'', SelectCamp binu ''1'' ''t2'', CancelSelection asha,
           SelectCamp chitra ''1'' ''t3''] ex_db)"
  by code_simp

section \<open>The outcome of SelectCamp\<close>

lemma lookup_camp_None:
  "lookup_camp pid st = None \<longleftrightarrow>
     (case parseInt (JStr pid) of None \<Rightarrow> True
      | Some campId \<Rightarrow> findIndex (\<lambda>c. c_id c = campId) (camps st) = None)"
  by (auto simp: lookup_camp_def find_findIndex split: option.splits)

lemma lookup_camp_Some:
  "lookup_camp pid st = Some c \<longleftrightarrow>
     (\<exists>campId i. parseInt (JStr pid) = Some campId \<and>
        findIndex (\<lambda>c. c_id c = campId) (camps st) = Some i \<and> c = camps st ! i)"
  by (auto simp: lookup_camp_def find_findIndex split: option.splits)

lemma select_camp_Forbidden:
  "fst (select_camp user pid now st) = Inl Forbidden \<longleftrightarrow> u_role user \<noteq> ''refugee''"
  by (auto simp: select_camp_def Let_def split: option.splits)

lemma select_camp_NotFound:
  "fst (select_camp user pid now st) = Inl NotFound \<longleftrightarrow>
     u_role user = ''refugee'' \<and> lookup_camp pid st = None"
  by (auto simp: select_camp_def Let_def lookup_camp_None split: option.splits)

lemma select_camp_Conflict:
  "fst (select_camp user pid now st) = Inl Conflict \<longleftrightarrow>
     u_role user = ''refugee'' \<and> lookup_camp pid st \<noteq> None \<and> has_selection st user"
  by (auto simp: select_camp_def Let_def lookup_camp_None has_selection_def split: option.splits)

lemma select_camp_CapacityExhausted:
  "fst (select_camp user pid now st) = Inl CapacityExhausted \<longleftrightarrow>
     u_role user = ''refugee'' \<and> \<not> has_selection st user \<and>
     (\<exists>c. lookup_camp pid st = Some c \<and> toNumber (c_beds c) \<le> 0)"
  by (auto simp: select_camp_def Let_def lookup_camp_Some has_selection_def split: option.splits)

lemma select_camp_success:
  assumes "registered st user"
  shows "(\<exists>sel. fst (select_camp user pid now st) = Inr sel \<and>
            selections (snd (select_camp user pid now st)) = selections st @ [sel] \<and>
            s_userId sel = u_id user \<and> parseInt (JStr pid) = Some (s_campId sel)) \<longleftrightarrow>
         u_role user = ''refugee'' \<and> \<not> has_selection st user \<and>
         (\<exists>c. lookup_camp pid st = Some c \<and> 0 < toNumber (c_beds c))"
  using assms
  by (auto simp: select_camp_def Let_def lookup_camp_Some has_selection_def registered_def
           split: option.splits)

text \<open>
  C5, as the handler orders its checks. The role is checked first, then the camp, then
  the caller's selection, then the beds: SelectCamp answers Forbidden exactly when the
  caller is no refugee; NotFound exactly when the caller is a refugee and the camp is
  absent; Conflict exactly when moreover the camp exists and the caller has a selection;
  CapacityExhausted exactly when moreover the caller has none and the camp's bed count
  is at most 0. For a registered caller it succeeds exactly when all four checks pass,
  and it returns the selection it appended, of this caller and this camp.
\<close>

theorem select_camp_outcome:
  "(fst (select_camp user pid now st) = Inl Forbidden \<longleftrightarrow> u_role user \<noteq> ''refugee'') \<and>
   (fst (select_camp user pid now st) = Inl NotFound \<longleftrightarrow>
      u_role user = ''refugee'' \<and> lookup_camp pid st = None) \<and>
   (fst (select_camp user pid now st) = Inl Conflict \<longleftrightarrow>
      u_role user = ''refugee'' \<and> lookup_camp pid st \<noteq> None \<and> has_selection st user) \<and>
   (fst (select_camp user pid now st) = Inl CapacityExhausted \<longleftrightarrow>
      u_role user = ''refugee'' \<and> \<not> has_selection st user \<and>
      (\<exists>c. lookup_camp pid st = Some c \<and> toNumber (c_beds c) \<le> 0)) \<and>
   (registered st user \<longrightarrow>
      ((\<exists>sel. fst (select_camp user pid now st) = Inr sel \<and>
            selections (snd (select_camp user pid now st)) = selections st @ [sel] \<and>
            s_userId sel = u_id user \<and> parseInt (JStr pid) = Some (s_campId sel)) \<longleftrightarrow>
       u_role user = ''refugee'' \<and> \<not> has_selection st user \<and>
       (\<exists>c. lookup_camp pid st = Some c \<and> 0 < toNumber (c_beds c))))"
  by (intro conjI impI select_camp_Forbidden select_camp_NotFound select_camp_Conflict
        select_camp_CapacityExhausted select_camp_success)

theorem select_camp_outcome_witness:
  "registered ex_db asha \<and> u_role asha = ''refugee'' \<and> \<not> has_selection ex_db asha \<and>
   (\<exists>c. lookup_camp ''2'' ex_db = Some c \<and> 0 < toNumber (c_beds c)) \<and>
   (\<exists>sel. fst (select_camp asha ''2'' ''t'' ex_db) = Inr sel \<and>
      selections (snd (select_camp asha ''2'' ''t'' ex_db)) = selections ex_db @ [sel] \<and>
      s_userId sel = u_id asha \<and> parseInt (JStr ''2'') = Some (s_campId sel))"
proof -
  have r: "registered ex_db asha"
    by code_simp
  have a: "u_role asha = ''refugee''" "\<not> has_selection ex_db asha"
    by code_simp+
  have "lookup_camp ''2'' ex_db = Some (defaultCamps ''2024-01-01T00:00:00.000Z'' ! 1)"
    by code_simp
  moreover have "0 < toNumber (c_beds (defaultCamps ''2024-01-01T00:00:00.000Z'' ! 1))"
    by code_simp
  ultimately have c: "\<exists>c. lookup_camp ''2'' ex_db = Some c \<and> 0 < toNumber (c_beds c)"
    by blast
  from select_camp_outcome [of asha "''2''" "''t''" ex_db] r a c show ?thesis
    by blast
qed
text \<open>
  C5 as stated fails: for a volunteer asking for a camp that does not exist the camp is
  absent and the answer is Forbidden, not NotFound.
\<close>

theorem select_camp_priority_counterexample:
  "lookup_camp ''99'' ex_db = None \<and> fst (select_camp dev ''99'' ''t'' ex_db) \<noteq> Inl NotFound"
  by code_simp

section \<open>DeleteCamp\<close>

lemma delete_camp_not_volunteer:
  "u_role user \<noteq> ''volunteer'' \<Longrightarrow> delete_camp user pid st = (Inl Forbidden, st)"
  by (simp add: delete_camp_def)

lemma delete_camp_absent:
  "u_role user = ''volunteer'' \<Longrightarrow> lookup_camp pid st = None \<Longrightarrow>
   delete_camp user pid st = (Inl NotFound, st)"
  by (auto simp: delete_camp_def lookup_camp_None split: option.splits)

lemma delete_camp_default:
  "u_role user = ''volunteer'' \<Longrightarrow> lookup_camp pid st = Some c \<Longrightarrow> c_type c = ''default'' \<Longrightarrow>
   delete_camp user pid st = (Inl Forbidden, st)"
  by (auto simp: delete_camp_def lookup_camp_Some split: option.splits)

lemma delete_camp_deletes:
  assumes "u_role user = ''volunteer''" and "lookup_camp pid st = Some c"
    and "c_type c \<noteq> ''default''"
  shows "delete_camp user pid st =
     (Inr (), st\<lparr>selections := filter (\<lambda>s. s_campId s \<noteq> c_id c) (selections st),
                camps := remove1 c (camps st)\<rparr>)"
proof -
  from assms(2) obtain campId i where p: "parseInt (JStr pid) = Some campId"
    and i: "findIndex (\<lambda>c. c_id c = campId) (camps st) = Some i" and c: "c = camps st ! i"
    by (auto simp: lookup_camp_Some)
  from findIndex_Some [OF i] c have "c_id c = campId"
    by simp
  with assms(1,3) p i c splice1_remove1 [OF i] show ?thesis
    by (simp add: delete_camp_def)
qed

text \<open>
  C7. DeleteCamp answers Forbidden to a caller who is no volunteer. For a volunteer it
  answers NotFound when the camp is absent and Forbidden when the camp's type is
  \<^verbatim>\<open>default\<close>; otherwise it succeeds, removes every selection that references the camp
  and removes the camp, and every other camp is left as it was: no bed is given back
  anywhere.
\<close>

theorem delete_camp_effect:
  "(u_role user \<noteq> ''volunteer'' \<longrightarrow> delete_camp user pid st = (Inl Forbidden, st)) \<and>
   (u_role user = ''volunteer'' \<and> lookup_camp pid st = None \<longrightarrow>
      delete_camp user pid st = (Inl NotFound, st)) \<and>
   (u_role user = ''volunteer'' \<and> lookup_camp pid st = Some c \<and> c_type c = ''default'' \<longrightarrow>
      delete_camp user pid st = (Inl Forbidden, st)) \<and>
   (u_role user = ''volunteer'' \<and> lookup_camp pid st = Some c \<and> c_type c \<noteq> ''default'' \<longrightarrow>
      delete_camp user pid st =
        (Inr (), st\<lparr>selections := filter (\<lambda>s. s_campId s \<noteq> c_id c) (selections st),
                   camps := remove1 c (camps st)\<rparr>))"
  using delete_camp_not_volunteer [of user pid st] delete_camp_absent [of user pid st]
    delete_camp_default [of user pid st c] delete_camp_deletes [of user pid st c]
  by blast

theorem delete_camp_effect_witness:
  "delete_camp asha ''4''
     (run [AddCamp dev (ex_camp_body (JStr ''5'')) ''t4'', SelectCamp asha ''4'' ''t5''] ex_db) =
     (Inl Forbidden, run [AddCamp dev (ex_camp_body (JStr ''5'')) ''t4'', SelectCamp asha ''4'' ''t5''] ex_db) \<and>
   delete_camp dev ''99''
     (run [AddCamp dev (ex_camp_body (JStr ''5'')) ''t4'', SelectCamp asha ''4'' ''t5''] ex_db) =
     (Inl NotFound, run [AddCamp dev (ex_camp_body (JStr ''5'')) ''t4'', SelectCamp asha ''4'' ''t5''] ex_db) \<and>
   delete_camp dev ''1''
     (run [AddCamp dev (ex_camp_body (JStr ''5'')) ''t4'', SelectCamp asha ''4'' ''t5''] ex_db) =
     (Inl Forbidden, run [AddCamp dev (ex_camp_body (JStr ''5'')) ''t4'', SelectCamp asha ''4'' ''t5''] ex_db) \<and>
   map s_campId (selections
     (run [AddCamp dev (ex_camp_body (JStr ''5'')) ''t4'', SelectCamp asha ''4'' ''t5''] ex_db)) = [4] \<and>
   delete_camp dev ''4''
     (run [AddCamp dev (ex_camp_body (JStr ''5'')) ''t4'', SelectCamp asha ''4'' ''t5''] ex_db) =
     (Inr (), ex_db)"
proof -
  let ?st = "run [AddCamp dev (ex_camp_body (JStr ''5'')) ''t4'', SelectCamp asha ''4'' ''t5''] ex_db"
  let ?c = "\<lparr>c_id = 4, c_name = JStr ''Town Library'', c_beds = Some 4, c_originalBeds = Some 5,
      c_resources = [''Food'', ''Water''], c_contact = JStr [], c_ambulance = JStr ''No'',
      c_type = ''volunteer-added'', c_addedBy = JStr ''Dev'', c_addedDate = ''t4''\<rparr>"
  let ?d = "defaultCamps ''2024-01-01T00:00:00.000Z'' ! 0"
  have r: "u_role asha \<noteq> ''volunteer''" "u_role dev = ''volunteer''"
    by code_simp+
  have l99: "lookup_camp ''99'' ?st = None"
    by code_simp
  have l1: "lookup_camp ''1'' ?st = Some ?d" "c_type ?d = ''default''"
    by code_simp+
  have l4: "lookup_camp ''4'' ?st = Some ?c" "c_type ?c \<noteq> ''default''"
    by code_simp+
  have sels: "map s_campId (selections ?st) = [4]"
    by code_simp
  have after: "?st\<lparr>selections := filter (\<lambda>s. s_campId s \<noteq> c_id ?c) (selections ?st),
                   camps := remove1 ?c (camps ?st)\<rparr> = ex_db"
    by code_simp
  from delete_camp_effect [of asha "''4''" ?st ?c] r(1)
  have a: "delete_camp asha ''4'' ?st = (Inl Forbidden, ?st)"
    by blast
  from delete_camp_effect [of dev "''99''" ?st ?c] r(2) l99
  have b: "delete_camp dev ''99'' ?st = (Inl NotFound, ?st)"
    by blast
  from delete_camp_effect [of dev "''1''" ?st ?d] r(2) l1
  have c: "delete_camp dev ''1'' ?st = (Inl Forbidden, ?st)"
    by blast
  from delete_camp_effect [of dev "''4''" ?st ?c] r(2) l4
  have "delete_camp dev ''4'' ?st =
      (Inr (), ?st\<lparr>selections := filter (\<lambda>s. s_campId s \<noteq> c_id ?c) (selections ?st),
                 camps := remove1 ?c (camps ?st)\<rparr>)"
    by blast
  with after have d: "delete_camp dev ''4'' ?st = (Inr (), ex_db)"
    by simp
  from a b c d sels show ?thesis
    by blast
qed

section \<open>The bed counts over a sequence of requests\<close>

subsection \<open>Counting selections\<close>

lemma selection_count_append:
  "selection_count cid (sels @ [s]) = selection_count cid sels + (if s_campId s = cid then 1 else 0)"
  by (simp add: selection_count_def)

lemma selection_count_splice1:
  assumes "i < length sels"
  shows "selection_count cid sels =
     selection_count cid (splice1 i sels) + (if s_campId (sels ! i) = cid then 1 else 0)"
proof -
  have "selection_count cid (take i sels @ sels ! i # drop (Suc i) sels) =
      selection_count cid (take i sels @ drop (Suc i) sels) + (if s_campId (sels ! i) = cid then 1 else 0)"
    by (simp add: selection_count_def)
  with splice1_decomp [OF assms] show ?thesis
    by (simp add: splice1_def)
qed

lemma selection_count_filter:
  "selection_count cid (filter (\<lambda>s. s_campId s \<noteq> k) sels) =
     (if cid = k then 0 else selection_count cid sels)"
  by (induction sels) (auto simp: selection_count_def)

lemma selection_count_zero:
  "cid \<notin> set (map s_campId sels) \<Longrightarrow> selection_count cid sels = 0"
  by (induction sels) (auto simp: selection_count_def)

subsection \<open>What a handler leaves behind\<close>

lemma select_camp_shapes:
  "snd (select_camp user pid now st) = st \<or>
   (\<exists>k i sels'. findIndex (\<lambda>c. c_id c = k) (camps st) = Some i \<and>
      0 < toNumber (c_beds (camps st ! i)) \<and>
      (sels' = selections st \<or> (\<exists>sel. s_campId sel = k \<and> sels' = selections st @ [sel])) \<and>
      snd (select_camp user pid now st) =
        st\<lparr>camps := (camps st)[i := (camps st ! i)\<lparr>c_beds :=
                         Some (round_int (toNumber (c_beds (camps st ! i)) - 1))\<rparr>],
           selections := sels'\<rparr>)"
proof (cases "fst (select_camp user pid now st)")
  case (Inr sel)
  then obtain k i where "findIndex (\<lambda>c. c_id c = k) (camps st) = Some i"
    "0 < toNumber (c_beds (camps st ! i))" "s_campId sel = k"
    "snd (select_camp user pid now st) =
        st\<lparr>camps := (camps st)[i := (camps st ! i)\<lparr>c_beds :=
                         Some (round_int (toNumber (c_beds (camps st ! i)) - 1))\<rparr>],
           selections := selections st @ [sel]\<rparr>"
    by (auto simp: select_camp_def Let_def split: if_splits option.splits)
  then show ?thesis by blast
next
  case (Inl e)
  show ?thesis
  proof (cases "e = Internal")
    case False
    with Inl have "snd (select_camp user pid now st) = st"
      by (auto simp: select_camp_def Let_def split: if_splits option.splits)
    then show ?thesis ..
  next
    case True
    with Inl obtain k i where "findIndex (\<lambda>c. c_id c = k) (camps st) = Some i"
      "0 < toNumber (c_beds (camps st ! i))"
      "snd (select_camp user pid now st) =
        st\<lparr>camps := (camps st)[i := (camps st ! i)\<lparr>c_beds :=
                         Some (round_int (toNumber (c_beds (camps st ! i)) - 1))\<rparr>],
           selections := selections st\<rparr>"
      by (auto simp: select_camp_def Let_def split: if_splits option.splits)
    then show ?thesis by blast
  qed
qed

lemma cancel_selection_shapes:
  assumes refs: "selections_reference_camps st"
  shows "snd (cancel_selection user st) = st \<or>
     (\<exists>si i. si < length (selections st) \<and>
        findIndex (\<lambda>c. c_id c = s_campId (selections st ! si)) (camps st) = Some i \<and>
        snd (cancel_selection user st) =
          st\<lparr>camps := (camps st)[i := (camps st ! i)\<lparr>c_beds :=
                           Some (round_int (toNumber (c_beds (camps st ! i)) + 1))\<rparr>],
             selections := splice1 si (selections st)\<rparr>)"
proof (cases "findIndex (\<lambda>s. s_userId s = u_id user) (selections st)")
  case None
  then show ?thesis by (simp add: cancel_selection_def)
next
  case (Some si)
  from findIndex_Some [OF Some] have sl: "si < length (selections st)"
    by simp
  with refs have "s_campId (selections st ! si) \<in> set (map c_id (camps st))"
    by (simp add: selections_reference_camps_def list_all_length)
  then have "findIndex (\<lambda>c. c_id c = s_campId (selections st ! si)) (camps st) \<noteq> None"
    by (auto simp: findIndex_None)
  then obtain i where i: "findIndex (\<lambda>c. c_id c = s_campId (selections st ! si)) (camps st) = Some i"
    by blast
  have "snd (cancel_selection user st) =
      st\<lparr>camps := (camps st)[i := (camps st ! i)\<lparr>c_beds :=
                       Some (round_int (toNumber (c_beds (camps st ! i)) + 1))\<rparr>],
         selections := splice1 si (selections st)\<rparr>"
    using Some i by (simp add: cancel_selection_def Let_def)
  with sl i show ?thesis by blast
qed

lemma add_camp_shapes:
  "snd (add_camp user body now st) = st \<or>
   (\<exists>c. c_id c = next_camp_id (camps st) \<and> c_beds c = parseInt (b_beds body) \<and>
      c_originalBeds c = parseInt (b_beds body) \<and> add_camp_accepts st user body \<and>
      snd (add_camp user body now st) = st\<lparr>camps := camps st @ [c]\<rparr>)"
proof (cases "fst (add_camp user body now st)")
  case (Inl e)
  then have "snd (add_camp user body now st) = st"
    by (auto simp: add_camp_def Let_def split: if_splits option.splits)
  then show ?thesis ..
next
  case (Inr c)
  then have "c_id c = next_camp_id (camps st) \<and> c_beds c = parseInt (b_beds body) \<and>
      c_originalBeds c = parseInt (b_beds body) \<and> add_camp_accepts st user body \<and>
      snd (add_camp user body now st) = st\<lparr>camps := camps st @ [c]\<rparr>"
    by (auto simp: add_camp_def add_camp_accepts_def registered_def Let_def
             split: if_splits option.splits)
  then show ?thesis by blast
qed

lemma delete_camp_shapes:
  "snd (delete_camp user pid st) = st \<or>
   (\<exists>k i. findIndex (\<lambda>c. c_id c = k) (camps st) = Some i \<and>
      snd (delete_camp user pid st) =
        st\<lparr>selections := filter (\<lambda>s. s_campId s \<noteq> k) (selections st),
           camps := splice1 i (camps st)\<rparr>)"
proof (cases "fst (delete_camp user pid st)")
  case (Inl e)
  then have "snd (delete_camp user pid st) = st"
    by (auto simp: delete_camp_def split: if_splits option.splits)
  then show ?thesis ..
next
  case (Inr u)
  then obtain k i where "findIndex (\<lambda>c. c_id c = k) (camps st) = Some i"
    "snd (delete_camp user pid st) =
        st\<lparr>selections := filter (\<lambda>s. s_campId s \<noteq> k) (selections st),
           camps := splice1 i (camps st)\<rparr>"
    by (auto simp: delete_camp_def split: if_splits option.splits)
  then show ?thesis by blast
qed

subsection \<open>The bed bounds are kept\<close>

lemma camp_kept_iff:
  "camp_kept sels cs j \<longleftrightarrow>
     (\<exists>b ob. c_beds (cs ! j) = Some b \<and> c_originalBeds (cs ! j) = Some ob \<and>
        0 \<le> b \<and> b \<le> ob \<and> round_int b = b \<and> round_int ob = ob \<and>
        ((\<forall>i < j. c_id (cs ! i) \<noteq> c_id (cs ! j)) \<longrightarrow>
           (give_back ^^ selection_count (c_id (cs ! j)) sels) b \<le> ob))"
  by (auto simp: camp_kept_def split: option.splits)

text \<open>
  A request that finds the camp with id \<open>k\<close> at index \<open>i\<close> and writes the bed count
  \<open>b'\<close> there, leaving the selections \<open>sels'\<close>.
\<close>

lemma kept_update:
  assumes kept: "\<forall>j < length cs. camp_kept sels cs j"
    and i: "findIndex (\<lambda>c. c_id c = k) cs = Some i"
    and ob: "c_originalBeds (cs ! i) = Some ob"
    and b': "0 \<le> b'" "b' \<le> ob" "round_int b' = b'"
      "(give_back ^^ selection_count k sels') b' \<le> ob"
    and others: "\<And>cid. cid \<noteq> k \<Longrightarrow> selection_count cid sels' = selection_count cid sels"
  shows "\<forall>j < length (cs[i := (cs ! i)\<lparr>c_beds := Some b'\<rparr>]).
           camp_kept sels' (cs[i := (cs ! i)\<lparr>c_beds := Some b'\<rparr>]) j"
proof (intro allI impI)
  let ?cs' = "cs[i := (cs ! i)\<lparr>c_beds := Some b'\<rparr>]"
  fix j
  assume "j < length ?cs'"
  then have jl: "j < length cs" by simp
  from findIndex_Some [OF i] have il: "i < length cs" and idi: "c_id (cs ! i) = k"
    and first: "\<forall>m < i. c_id (cs ! m) \<noteq> k"
    by simp_all
  have ids: "\<And>m. m < length cs \<Longrightarrow> c_id (?cs' ! m) = c_id (cs ! m)"
    using il by (simp add: nth_list_update)
  from kept jl have old: "camp_kept sels cs j" by simp
  from kept il have oldi: "camp_kept sels cs i" by simp
  show "camp_kept sels' ?cs' j"
  proof (cases "j = i")
    case True
    from oldi ob have "round_int ob = ob"
      by (auto simp: camp_kept_iff)
    with True il idi ob b' show ?thesis
      by (simp add: camp_kept_iff)
  next
    case False
    with il have same: "?cs' ! j = cs ! j" by simp
    from old obtain b ob' where o: "c_beds (cs ! j) = Some b" "c_originalBeds (cs ! j) = Some ob'"
      "0 \<le> b" "b \<le> ob'" "round_int b = b" "round_int ob' = ob'"
      "(\<forall>m < j. c_id (cs ! m) \<noteq> c_id (cs ! j)) \<longrightarrow>
         (give_back ^^ selection_count (c_id (cs ! j)) sels) b \<le> ob'"
      by (auto simp: camp_kept_iff)
    have "(\<forall>m < j. c_id (?cs' ! m) \<noteq> c_id (?cs' ! j)) \<longrightarrow>
        (give_back ^^ selection_count (c_id (?cs' ! j)) sels') b \<le> ob'"
    proof
      assume f: "\<forall>m < j. c_id (?cs' ! m) \<noteq> c_id (?cs' ! j)"
      have f': "\<forall>m < j. c_id (cs ! m) \<noteq> c_id (cs ! j)"
      proof (intro allI impI)
        fix m assume mj: "m < j"
        with jl have "m < length cs" by simp
        from ids [OF this] ids [OF jl] f mj show "c_id (cs ! m) \<noteq> c_id (cs ! j)"
          by auto
      qed
      have "c_id (cs ! j) \<noteq> k"
      proof
        assume eq: "c_id (cs ! j) = k"
        with first have "\<not> j < i" by auto
        with False have "i < j" by simp
        with f' idi eq show False by auto
      qed
      from others [OF this] o(7) f' same show
        "(give_back ^^ selection_count (c_id (?cs' ! j)) sels') b \<le> ob'"
        by simp
    qed
    with o same show ?thesis
      by (simp add: camp_kept_iff)
  qed
qed

lemma kept_append:
  assumes kept: "\<forall>j < length cs. camp_kept sels cs j"
    and refs: "list_all (\<lambda>s. s_campId s \<in> set (map c_id cs)) sels"
    and c: "c_beds c = Some n" "c_originalBeds c = Some n" "0 \<le> n" "round_int n = n"
  shows "\<forall>j < length (cs @ [c]). camp_kept sels (cs @ [c]) j"
proof (intro allI impI)
  fix j
  assume "j < length (cs @ [c])"
  then consider "j < length cs" | "j = length cs" by fastforce
  then show "camp_kept sels (cs @ [c]) j"
  proof cases
    case 1
    with kept have "camp_kept sels cs j" by simp
    with 1 show ?thesis
      by (simp add: camp_kept_iff nth_append)
  next
    case 2
    have "(\<forall>i < j. c_id ((cs @ [c]) ! i) \<noteq> c_id ((cs @ [c]) ! j)) \<longrightarrow>
        (give_back ^^ selection_count (c_id ((cs @ [c]) ! j)) sels) n \<le> n"
    proof
      assume f: "\<forall>i < j. c_id ((cs @ [c]) ! i) \<noteq> c_id ((cs @ [c]) ! j)"
      have "c_id c \<notin> set (map c_id cs)"
      proof
        assume "c_id c \<in> set (map c_id cs)"
        then obtain i where "i < length cs" "c_id (cs ! i) = c_id c"
          by (auto simp: in_set_conv_nth)
        with f 2 show False
          by (auto simp: nth_append)
      qed
      with refs have "c_id c \<notin> set (map s_campId sels)"
        by (auto simp: list_all_iff)
      then have "selection_count (c_id c) sels = 0"
        by (rule selection_count_zero)
      with 2 show "(give_back ^^ selection_count (c_id ((cs @ [c]) ! j)) sels) n \<le> n"
        by simp
    qed
    with 2 c show ?thesis
      by (simp add: camp_kept_iff)
  qed
qed

lemma nth_splice1:
  assumes "i < length xs" and "j < length xs - 1"
  shows "splice1 i xs ! j = xs ! (if j < i then j else Suc j)"
  using assms by (auto simp: splice1_def nth_append min_def)

lemma length_splice1: "i < length xs \<Longrightarrow> length (splice1 i xs) = length xs - 1"
  by (auto simp: splice1_def)

lemma kept_splice:
  assumes kept: "\<forall>j < length cs. camp_kept sels cs j"
    and i: "findIndex (\<lambda>c. c_id c = k) cs = Some i"
  shows "\<forall>j < length (splice1 i cs).
           camp_kept (filter (\<lambda>s. s_campId s \<noteq> k) sels) (splice1 i cs) j"
proof (intro allI impI)
  let ?sels' = "filter (\<lambda>s. s_campId s \<noteq> k) sels"
  from findIndex_Some [OF i] have il: "i < length cs" and idi: "c_id (cs ! i) = k"
    by simp_all
  fix j
  assume "j < length (splice1 i cs)"
  with il have jl: "j < length cs - 1"
    by (simp add: length_splice1)
  define g where "g = (\<lambda>m. if m < i then m else Suc m)"
  have nth: "\<And>m. m < length cs - 1 \<Longrightarrow> splice1 i cs ! m = cs ! g m"
    unfolding g_def using il by (rule nth_splice1)
  from jl have gj: "g j < length cs"
    by (auto simp: g_def)
  with kept have "camp_kept sels cs (g j)" by blast
  then obtain b ob where o: "c_beds (cs ! g j) = Some b"
    "c_originalBeds (cs ! g j) = Some ob" "0 \<le> b" "b \<le> ob" "round_int b = b"
    "round_int ob = ob"
    "(\<forall>m < g j. c_id (cs ! m) \<noteq> c_id (cs ! g j)) \<longrightarrow>
       (give_back ^^ selection_count (c_id (cs ! g j)) sels) b \<le> ob"
    by (auto simp: camp_kept_iff)
  have "(\<forall>m < j. c_id (splice1 i cs ! m) \<noteq> c_id (splice1 i cs ! j)) \<longrightarrow>
      (give_back ^^ selection_count (c_id (splice1 i cs ! j)) ?sels') b \<le> ob"
  proof
    assume f: "\<forall>m < j. c_id (splice1 i cs ! m) \<noteq> c_id (splice1 i cs ! j)"
    show "(give_back ^^ selection_count (c_id (splice1 i cs ! j)) ?sels') b \<le> ob"
    proof (cases "c_id (cs ! g j) = k")
      case True
      with o(4) nth [OF jl] show ?thesis
        by (simp add: selection_count_filter)
    next
      case False
      have "\<forall>m < g j. c_id (cs ! m) \<noteq> c_id (cs ! g j)"
      proof (intro allI impI)
        fix m
        assume m: "m < g j"
        show "c_id (cs ! m) \<noteq> c_id (cs ! g j)"
        proof (cases "m = i")
          case True
          with idi False show ?thesis by simp
        next
          case mi: False
          define m' where "m' = (if m < i then m else m - 1)"
          from m mi have m': "m' < j" and gm: "g m' = m"
            by (auto simp: g_def m'_def split: if_splits)
          from m' jl have "m' < length cs - 1" by simp
          from nth [OF this] have "splice1 i cs ! m' = cs ! m"
            by (simp add: gm)
          moreover from f m' have "c_id (splice1 i cs ! m') \<noteq> c_id (splice1 i cs ! j)"
            by simp
          ultimately show ?thesis
            using nth [OF jl] by simp
        qed
      qed
      with o(7) False nth [OF jl] show ?thesis
        by (simp add: selection_count_filter)
    qed
  qed
  with o nth [OF jl] show "camp_kept ?sels' (splice1 i cs) j"
    by (simp add: camp_kept_iff)
qed

lemma users_step: "users (step r st) = users st"
  by (cases r)
     (auto simp: select_camp_def cancel_selection_def add_camp_def delete_camp_def Let_def
           split: option.splits)

lemma map_c_id_update:
  "i < length cs \<Longrightarrow> map c_id (cs[i := (cs ! i)\<lparr>c_beds := b\<rparr>]) = map c_id cs"
  by (simp add: list_eq_iff_nth_eq nth_list_update)

lemma set_splice1_insert:
  "i < length xs \<Longrightarrow> set xs = insert (xs ! i) (set (splice1 i xs))"
proof -
  assume "i < length xs"
  from splice1_decomp [OF this]
  have "set xs = set (take i xs @ xs ! i # drop (Suc i) xs)"
    by simp
  then show ?thesis
    by (simp add: splice1_def)
qed

lemma select_camp_kept:
  assumes inv: "bounds_kept st"
  shows "bounds_kept (snd (select_camp user pid now st))"
proof -
  let ?cs = "camps st"
  let ?sels = "selections st"
  from inv have refs: "list_all (\<lambda>s. s_campId s \<in> set (map c_id ?cs)) ?sels"
    and kept: "\<forall>j < length ?cs. camp_kept ?sels ?cs j"
    by (simp_all add: bounds_kept_def selections_reference_camps_def)
  from select_camp_shapes [of user pid now st]
  consider (same) "snd (select_camp user pid now st) = st"
    | (took) k i sels' where "findIndex (\<lambda>c. c_id c = k) ?cs = Some i"
      "0 < toNumber (c_beds (?cs ! i))"
      "sels' = ?sels \<or> (\<exists>sel. s_campId sel = k \<and> sels' = ?sels @ [sel])"
      "snd (select_camp user pid now st) =
        st\<lparr>camps := ?cs[i := (?cs ! i)\<lparr>c_beds := Some (round_int (toNumber (c_beds (?cs ! i)) - 1))\<rparr>],
           selections := sels'\<rparr>"
    by blast
  then show ?thesis
  proof cases
    case same
    with inv show ?thesis by simp
  next
    case (took k i sels')
    note i = took(1) and pos = took(2) and sels' = took(3) and st' = took(4)
    from findIndex_Some [OF i] have il: "i < length ?cs" and idi: "c_id (?cs ! i) = k"
      and first: "\<forall>m < i. c_id (?cs ! m) \<noteq> c_id (?cs ! i)"
      by simp_all
    from kept il have "camp_kept ?sels ?cs i" by simp
    with first obtain b ob where o: "c_beds (?cs ! i) = Some b" "c_originalBeds (?cs ! i) = Some ob"
      "0 \<le> b" "b \<le> ob" "round_int b = b"
      "(give_back ^^ selection_count k ?sels) b \<le> ob"
      by (auto simp: camp_kept_iff idi)
    from pos o(1) have bpos: "0 < b" by (simp add: toNumber_def)
    note tb = take_bed [OF bpos o(5)]
    let ?d = "round_int (b - 1)"
    have count: "selection_count k sels' = selection_count k ?sels \<or>
        selection_count k sels' = Suc (selection_count k ?sels)"
      using sels' by (auto simp: selection_count_append)
    have others: "\<And>cid. cid \<noteq> k \<Longrightarrow> selection_count cid sels' = selection_count cid ?sels"
      using sels' by (auto simp: selection_count_append)
    have iter: "(give_back ^^ selection_count k sels') ?d \<le> ob"
    proof -
      let ?n = "selection_count k ?sels"
      from give_back_funpow_mono [OF tb(1) tb(2), of ?n] o(6)
      have a: "(give_back ^^ ?n) ?d \<le> ob" by simp
      from give_back_nonneg [OF tb(1)] give_back_funpow_mono [of "give_back ?d" b ?n] tb(3) o(6)
      have "(give_back ^^ ?n) (give_back ?d) \<le> ob" by simp
      then have b: "(give_back ^^ Suc ?n) ?d \<le> ob"
        by (simp add: funpow_swap1)
      from count a b show ?thesis by auto
    qed
    from tb(2) o(4) have dle: "?d \<le> ob" by simp
    from kept_update [OF kept i o(2) tb(1) dle round_int_idem iter others] o(1)
    have kept': "\<forall>j < length ?cs. camp_kept sels'
        (?cs[i := (?cs ! i)\<lparr>c_beds := Some (round_int (toNumber (c_beds (?cs ! i)) - 1))\<rparr>]) j"
      by (simp add: toNumber_def)
    have "k \<in> set (map c_id ?cs)"
      using il idi by (metis length_map nth_map nth_mem)
    with refs sels' have "list_all (\<lambda>s. s_campId s \<in> set (map c_id ?cs)) sels'"
      by auto
    with kept' il show ?thesis
      by (simp add: st' bounds_kept_def selections_reference_camps_def map_c_id_update)
  qed
qed

lemma cancel_selection_kept:
  assumes inv: "bounds_kept st"
  shows "bounds_kept (snd (cancel_selection user st))"
proof -
  let ?cs = "camps st"
  let ?sels = "selections st"
  from inv have refs0: "selections_reference_camps st"
    and refs: "list_all (\<lambda>s. s_campId s \<in> set (map c_id ?cs)) ?sels"
    and kept: "\<forall>j < length ?cs. camp_kept ?sels ?cs j"
    by (simp_all add: bounds_kept_def selections_reference_camps_def)
  from cancel_selection_shapes [OF refs0, of user] show ?thesis
  proof (elim disjE exE conjE)
    assume "snd (cancel_selection user st) = st"
    with inv show ?thesis by simp
  next
    fix si i
    assume sl: "si < length ?sels"
      and i: "findIndex (\<lambda>c. c_id c = s_campId (?sels ! si)) ?cs = Some i"
      and st': "snd (cancel_selection user st) =
          st\<lparr>camps := ?cs[i := (?cs ! i)\<lparr>c_beds := Some (round_int (toNumber (c_beds (?cs ! i)) + 1))\<rparr>],
             selections := splice1 si ?sels\<rparr>"
    let ?k = "s_campId (?sels ! si)"
    from findIndex_Some [OF i] have il: "i < length ?cs" and idi: "c_id (?cs ! i) = ?k"
      and first: "\<forall>m < i. c_id (?cs ! m) \<noteq> c_id (?cs ! i)"
      by simp_all
    from kept il have "camp_kept ?sels ?cs i" by simp
    with first obtain b ob where o: "c_beds (?cs ! i) = Some b" "c_originalBeds (?cs ! i) = Some ob"
      "0 \<le> b" "b \<le> ob" "round_int b = b"
      "(give_back ^^ selection_count ?k ?sels) b \<le> ob"
      by (auto simp: camp_kept_iff idi)
    from selection_count_splice1 [OF sl, of ?k]
    have count: "selection_count ?k ?sels = Suc (selection_count ?k (splice1 si ?sels))"
      by simp
    have others: "\<And>cid. cid \<noteq> ?k \<Longrightarrow>
        selection_count cid (splice1 si ?sels) = selection_count cid ?sels"
      using selection_count_splice1 [OF sl] by simp
    from o(6) have iter: "(give_back ^^ selection_count ?k (splice1 si ?sels)) (give_back b) \<le> ob"
      by (simp add: count funpow_swap1)
    from give_back_funpow_le [OF o(3) o(5), of 1 "selection_count ?k ?sels"] o(6) count
    have gle: "give_back b \<le> ob" by simp
    from kept_update [OF kept i o(2) give_back_nonneg [OF o(3)] gle give_back_double iter others] o(1)
    have kept': "\<forall>j < length ?cs. camp_kept (splice1 si ?sels)
        (?cs[i := (?cs ! i)\<lparr>c_beds := Some (round_int (toNumber (c_beds (?cs ! i)) + 1))\<rparr>]) j"
      by (simp add: toNumber_def give_back_def)
    from refs set_splice1 [of si ?sels]
    have "list_all (\<lambda>s. s_campId s \<in> set (map c_id ?cs)) (splice1 si ?sels)"
      unfolding list_all_iff by blast
    with kept' il show ?thesis
      by (simp add: st' bounds_kept_def selections_reference_camps_def map_c_id_update)
  qed
qed

lemma add_camp_kept:
  assumes inv: "bounds_kept st" and nn: "adds_nonneg st (AddCamp user body now)"
  shows "bounds_kept (snd (add_camp user body now st))"
proof -
  let ?cs = "camps st"
  let ?sels = "selections st"
  from inv have refs: "list_all (\<lambda>s. s_campId s \<in> set (map c_id ?cs)) ?sels"
    and kept: "\<forall>j < length ?cs. camp_kept ?sels ?cs j"
    by (simp_all add: bounds_kept_def selections_reference_camps_def)
  from add_camp_shapes [of user body now st] show ?thesis
  proof (elim disjE exE conjE)
    assume "snd (add_camp user body now st) = st"
    with inv show ?thesis by simp
  next
    fix c
    assume b: "c_beds c = parseInt (b_beds body)"
      and ob: "c_originalBeds c = parseInt (b_beds body)"
      and acc: "add_camp_accepts st user body"
      and st': "snd (add_camp user body now st) = st\<lparr>camps := ?cs @ [c]\<rparr>"
    from nn acc obtain n where n: "parseInt (b_beds body) = Some n" "0 \<le> n"
      by (auto split: option.splits)
    from parseInt_double [OF n(1)] have dn: "round_int n = n" .
    from kept_append [OF kept refs, of c n] b ob n dn
    have kept': "\<forall>j < length (?cs @ [c]). camp_kept ?sels (?cs @ [c]) j"
      by simp
    from refs have "list_all (\<lambda>s. s_campId s \<in> set (map c_id (?cs @ [c]))) ?sels"
      by (simp add: list_all_iff)
    with kept' show ?thesis
      by (simp add: st' bounds_kept_def selections_reference_camps_def)
  qed
qed

lemma delete_camp_kept:
  assumes inv: "bounds_kept st"
  shows "bounds_kept (snd (delete_camp user pid st))"
proof -
  let ?cs = "camps st"
  let ?sels = "selections st"
  from inv have refs: "list_all (\<lambda>s. s_campId s \<in> set (map c_id ?cs)) ?sels"
    and kept: "\<forall>j < length ?cs. camp_kept ?sels ?cs j"
    by (simp_all add: bounds_kept_def selections_reference_camps_def)
  from delete_camp_shapes [of user pid st] show ?thesis
  proof (elim disjE exE conjE)
    assume "snd (delete_camp user pid st) = st"
    with inv show ?thesis by simp
  next
    fix k i
    assume i: "findIndex (\<lambda>c. c_id c = k) ?cs = Some i"
      and st': "snd (delete_camp user pid st) =
        st\<lparr>selections := filter (\<lambda>s. s_campId s \<noteq> k) ?sels, camps := splice1 i ?cs\<rparr>"
    from findIndex_Some [OF i] have il: "i < length ?cs" and idi: "c_id (?cs ! i) = k"
      by simp_all
    from set_splice1_insert [OF il] idi
    have "set (map c_id ?cs) = insert k (set (map c_id (splice1 i ?cs)))"
      by simp
    with refs have refs': "list_all (\<lambda>s. s_campId s \<in> set (map c_id (splice1 i ?cs)))
        (filter (\<lambda>s. s_campId s \<noteq> k) ?sels)"
      by (auto simp: list_all_iff)
    from kept_splice [OF kept i] refs' show ?thesis
      by (simp add: st' bounds_kept_def selections_reference_camps_def)
  qed
qed

lemma step_kept: "bounds_kept st \<Longrightarrow> adds_nonneg st r \<Longrightarrow> bounds_kept (step r st)"
proof (cases r)
  case (AddCamp user body now)
  assume "bounds_kept st" "adds_nonneg st r"
  with AddCamp show ?thesis
    using add_camp_kept [of st user body now] by simp
qed (simp_all add: select_camp_kept cancel_selection_kept delete_camp_kept)

lemma adds_nonneg_users: "users st' = users st \<Longrightarrow> adds_nonneg st' r = adds_nonneg st r"
  by (cases r) (simp_all add: add_camp_accepts_def registered_def)

lemma run_kept:
  "bounds_kept st \<Longrightarrow> list_all (adds_nonneg st) reqs \<Longrightarrow> bounds_kept (run reqs st)"
proof (induction reqs arbitrary: st)
  case Nil
  then show ?case by (simp add: run_def)
next
  case (Cons r reqs)
  from Cons.prems have k: "bounds_kept (step r st)"
    by (simp add: step_kept)
  have "list_all (adds_nonneg (step r st)) reqs = list_all (adds_nonneg st) reqs"
    by (simp add: list_all_iff adds_nonneg_users [OF users_step])
  with Cons.prems have "list_all (adds_nonneg (step r st)) reqs"
    by simp
  from Cons.IH [OF k this] show ?case
    by (simp add: run_def)
qed

lemma room_kept:
  assumes refs: "selections_reference_camps st" and dbl: "bed_counts_double st"
    and room: "beds_have_room st"
  shows "bounds_kept st"
proof -
  have "camp_kept (selections st) (camps st) j" if jl: "j < length (camps st)" for j
  proof -
    let ?c = "camps st ! j"
    from room jl have "camp_has_room (selections st) ?c"
      by (simp add: beds_have_room_def list_all_length)
    then obtain b ob where o: "c_beds ?c = Some b" "c_originalBeds ?c = Some ob" "0 \<le> b"
      "b + int (selection_count (c_id ?c) (selections st)) \<le> ob"
      by (auto simp: camp_has_room_def split: option.splits)
    from dbl jl have "camp_doubles ?c"
      by (simp add: bed_counts_double_def list_all_length)
    with o have d: "round_int b = b" "round_int ob = ob"
      by (simp_all add: camp_doubles_def is_double_round)
    from o(3) have "0 \<le> b + int (selection_count (c_id ?c) (selections st))" by simp
    from round_int_mono [OF this o(4)] d(2)
      give_back_funpow_round [OF o(3) d(1), of "selection_count (c_id ?c) (selections st)"]
    have "(give_back ^^ selection_count (c_id ?c) (selections st)) b \<le> ob"
      by simp
    moreover from o(3,4) have "b \<le> ob" by simp
    ultimately show ?thesis
      using o d by (simp add: camp_kept_iff)
  qed
  with refs show ?thesis
    by (simp add: bounds_kept_def)
qed

lemma kept_bounds: "bounds_kept st \<Longrightarrow> bed_bounds st"
  by (auto simp: bounds_kept_def bed_bounds_def list_all_length camp_kept_iff camp_bounded_def)

text \<open>
  C2, for the bed counts AddCamp should accept. Start from a store in which every
  selection references a stored camp, the bed counts are numbers, and every camp has a
  current bed count of at least 0 that, with the number of selections referencing the
  camp added, is at most the original count. Then after any sequence of SelectCamp,
  CancelSelection, AddCamp and DeleteCamp requests in which every AddCamp that goes
  through carries a bed count that reads as a non-negative integer, every camp has
  0 \<le> current bed count \<le> original bed count. Nothing is asked of the other requests,
  of the camp ids or of the size of the counts.
\<close>

theorem bed_bounds_invariant:
  assumes "selections_reference_camps st" and "bed_counts_double st" and "beds_have_room st"
    and "list_all (adds_nonneg st) reqs"
  shows "bed_bounds (run reqs st)"
  using run_kept [OF room_kept [OF assms(1-3)] assms(4)] by (rule kept_bounds)

theorem bed_bounds_invariant_witness:
  "selections_reference_camps ex_db \<and> bed_counts_double ex_db \<and> beds_have_room ex_db \<and>
   list_all (adds_nonneg ex_db)
     [AddCamp dev (ex_camp_body (JStr ''1'')) ''t1'', SelectCamp asha ''4'' ''t2'',
      SelectCamp binu ''4'' ''t3'', CancelSelection asha, SelectCamp binu ''4'' ''t4'',
      AddCamp asha (ex_camp_body (JStr ''-5'')) ''t5'', DeleteCamp dev ''2''] \<and>
   bed_bounds
     (run [AddCamp dev (ex_camp_body (JStr ''1'')) ''t1'', SelectCamp asha ''4'' ''t2'',
           SelectCamp binu ''4'' ''t3'', CancelSelection asha, SelectCamp binu ''4'' ''t4'',
           AddCamp asha (ex_camp_body (JStr ''-5'')) ''t5'', DeleteCamp dev ''2''] ex_db)"
proof -
  have s: "selections_reference_camps ex_db" "bed_counts_double ex_db" "beds_have_room ex_db"
    by code_simp+
  have a: "list_all (adds_nonneg ex_db)
     [AddCamp dev (ex_camp_body (JStr ''1'')) ''t1'', SelectCamp asha ''4'' ''t2'',
      SelectCamp binu ''4'' ''t3'', CancelSelection asha, SelectCamp binu ''4'' ''t4'',
      AddCamp asha (ex_camp_body (JStr ''-5'')) ''t5'', DeleteCamp dev ''2'']"
    by code_simp
  from bed_bounds_invariant [OF s a] s a show ?thesis
    by blast
qed

text \<open>
  C2 as stated fails: the example database satisfies the bounds, and a volunteer's
  AddCamp with the bed count \<^verbatim>\<open>"-5"\<close> is accepted and stores a camp with -5 beds.
\<close>

theorem bed_bounds_counterexample:
  "bed_bounds ex_db \<and>
   map c_beds (camps (run [AddCamp dev (ex_camp_body (JStr ''-5'')) ''t''] ex_db)) =
     [Some 24, Some 12, Some 30, Some (- 5)] \<and>
   \<not> bed_bounds (run [AddCamp dev (ex_camp_body (JStr ''-5'')) ''t''] ex_db)"
  by code_simp

subsection \<open>Bed accounting is kept\<close>


























section \<open>Selecting and cancelling\<close>

lemma select_then_cancel_general:
  assumes "select_camp user pid now st = (Inr sel, st')"
  shows "\<exists>c i. lookup_camp pid st = Some c \<and> i < length (camps st) \<and> camps st ! i = c \<and>
           0 < toNumber (c_beds c) \<and> \<not> has_selection st user \<and>
           cancel_selection user st' =
             (Inr (), st\<lparr>camps := (camps st)[i := c\<lparr>c_beds :=
                 Some (round_int (round_int (toNumber (c_beds c) - 1) + 1))\<rparr>]\<rparr>)"
proof -
  from assms obtain campId i u where
    p: "parseInt (JStr pid) = Some campId"
    and i: "findIndex (\<lambda>c. c_id c = campId) (camps st) = Some i"
    and none: "find (\<lambda>s. s_userId s = u_id user) (selections st) = None"
    and beds: "0 < toNumber (c_beds (camps st ! i))"
    and sel: "s_userId sel = u_id user" "s_campId sel = campId"
    and st': "st' = st\<lparr>camps := (camps st)[i := (camps st ! i)\<lparr>c_beds :=
                         Some (round_int (toNumber (c_beds (camps st ! i)) - 1))\<rparr>],
                    selections := selections st @ [sel]\<rparr>"
    by (auto simp: select_camp_def Let_def split: if_splits option.splits)
  let ?c = "camps st ! i"
  let ?d = "round_int (toNumber (c_beds ?c) - 1)"
  from none have noneI: "findIndex (\<lambda>s. s_userId s = u_id user) (selections st) = None"
    by (simp add: find_None findIndex_None)
  have si: "findIndex (\<lambda>s. s_userId s = u_id user) (selections st') = Some (length (selections st))"
    using findIndex_append_last [OF noneI, of sel] sel by (simp add: st')
  from findIndex_Some [OF i] have il: "i < length (camps st)" and idi: "c_id ?c = campId"
    by simp_all
  have ci: "findIndex (\<lambda>c. c_id c = campId) (camps st') = Some i"
    using findIndex_update [OF i, of "?c\<lparr>c_beds := Some ?d\<rparr>"] idi
    by (simp add: st')
  have "cancel_selection user st' =
      (Inr (), st\<lparr>camps := (camps st)[i := ?c\<lparr>c_beds := Some (round_int (?d + 1))\<rparr>]\<rparr>)"
    unfolding cancel_selection_def
    using si ci il sel
    by (simp add: st' splice1_append_last toNumber_def)
  moreover have "lookup_camp pid st = Some ?c"
    using p i by (simp add: lookup_camp_Some)
  moreover from none have "\<not> has_selection st user"
    by (simp add: has_selection_def)
  ultimately show ?thesis
    using il beds by blast
qed

text \<open>
  C4, in the arithmetic of doubles. When SelectCamp succeeds, the camp it found had a
  positive bed count \<open>b\<close> and the caller had no selection; the CancelSelection that
  follows succeeds, removes the selection again and leaves the store as it was before the
  SelectCamp, except that the camp's bed count is \<open>b - 1 + 1\<close> with each step rounded
  to a double. For \<open>b \<le> 2^53\<close> both steps are exact, and the store is what it was
  before the SelectCamp.
\<close>

theorem select_then_cancel_restores:
  assumes "select_camp user pid now st = (Inr sel, st')"
  shows "\<exists>c i. lookup_camp pid st = Some c \<and> i < length (camps st) \<and> camps st ! i = c \<and>
           0 < toNumber (c_beds c) \<and> \<not> has_selection st user \<and>
           cancel_selection user st' =
             (Inr (), st\<lparr>camps := (camps st)[i := c\<lparr>c_beds :=
                 Some (round_int (round_int (toNumber (c_beds c) - 1) + 1))\<rparr>]\<rparr>) \<and>
           (toNumber (c_beds c) \<le> 2 ^ 53 \<longrightarrow> cancel_selection user st' = (Inr (), st))"
proof -
  from select_then_cancel_general [OF assms] obtain c i where
    g: "lookup_camp pid st = Some c" "i < length (camps st)" "camps st ! i = c"
      "0 < toNumber (c_beds c)" "\<not> has_selection st user"
      "cancel_selection user st' =
         (Inr (), st\<lparr>camps := (camps st)[i := c\<lparr>c_beds :=
             Some (round_int (round_int (toNumber (c_beds c) - 1) + 1))\<rparr>]\<rparr>)"
    by blast
  have "cancel_selection user st' = (Inr (), st)" if small: "toNumber (c_beds c) \<le> 2 ^ 53"
  proof -
    let ?b = "toNumber (c_beds c)"
    from g(4) small have "\<bar>?b - 1\<bar> \<le> 2 ^ 53" "\<bar>?b\<bar> \<le> 2 ^ 53" by simp_all
    then have "round_int (round_int (?b - 1) + 1) = ?b"
      by (simp add: round_int_small)
    moreover from toNumber_pos [OF g(4)] have "c\<lparr>c_beds := Some ?b\<rparr> = c"
      by simp
    moreover from g(3) have "(camps st)[i := c] = camps st"
      using list_update_id [of "camps st" i] by simp
    ultimately show ?thesis
      using g(6) by simp
  qed
  with g show ?thesis by blast
qed

theorem select_then_cancel_restores_witness:
  "\<not> isl (fst (select_camp asha ''1'' ''t1'' ex_db)) \<and>
   cancel_selection asha (snd (select_camp asha ''1'' ''t1'' ex_db)) = (Inr (), ex_db) \<and>
   \<not> has_selection ex_db asha"
proof -
  have ok: "\<not> isl (fst (select_camp asha ''1'' ''t1'' ex_db))"
    by code_simp
  then obtain sel where "fst (select_camp asha ''1'' ''t1'' ex_db) = Inr sel"
    by (cases "fst (select_camp asha ''1'' ''t1'' ex_db)") simp_all
  then have h: "select_camp asha ''1'' ''t1'' ex_db =
      (Inr sel, snd (select_camp asha ''1'' ''t1'' ex_db))"
    by (simp add: prod_eq_iff)
  have l: "lookup_camp ''1'' ex_db = Some (defaultCamps ''2024-01-01T00:00:00.000Z'' ! 0)"
    "toNumber (c_beds (defaultCamps ''2024-01-01T00:00:00.000Z'' ! 0)) \<le> 2 ^ 53"
    by code_simp+
  from select_then_cancel_restores [OF h] l ok show ?thesis
    by auto
qed

text \<open>
  C4 as stated fails for a camp with 9007199254740994 beds, which AddCamp accepts:
  SelectCamp leaves 9007199254740992 (the odd number between is no double and the tie
  goes to the even significand), and CancelSelection adds 1 to that, which is
  9007199254740992 again.
\<close>

theorem select_then_cancel_counterexample:
  "\<not> isl (fst (select_camp asha ''4'' ''t1'' ex_big_db)) \<and>
   map c_beds (camps ex_big_db) = [Some 24, Some 12, Some 30, Some 9007199254740994] \<and>
   fst (cancel_selection asha (snd (select_camp asha ''4'' ''t1'' ex_big_db))) = Inr () \<and>
   map c_beds (camps (snd (cancel_selection asha (snd (select_camp asha ''4'' ''t1'' ex_big_db))))) =
     [Some 24, Some 12, Some 30, Some 9007199254740992]"
  by code_simp

section \<open>CancelSelection\<close>

lemma cancel_selection_NotFound:
  "find (\<lambda>s. s_userId s = u_id user) (selections st) = None \<Longrightarrow>
   cancel_selection user st = (Inl NotFound, st)"
  by (simp add: cancel_selection_def find_findIndex split: option.splits)

lemma cancel_selection_camp_gone:
  assumes "find (\<lambda>s. s_userId s = u_id user) (selections st) = Some sel"
    and "find (\<lambda>c. c_id c = s_campId sel) (camps st) = None"
  shows "cancel_selection user st = (Inr (), st\<lparr>selections := remove1 sel (selections st)\<rparr>)"
  using assms
  by (auto simp: cancel_selection_def find_findIndex Let_def splice1_remove1 split: option.splits)

lemma cancel_selection_camp_found:
  assumes "find (\<lambda>s. s_userId s = u_id user) (selections st) = Some sel"
    and "find (\<lambda>c. c_id c = s_campId sel) (camps st) = Some c"
  shows "\<exists>i < length (camps st). camps st ! i = c \<and>
           (\<forall>j < i. c_id (camps st ! j) \<noteq> s_campId sel) \<and>
           cancel_selection user st =
             (Inr (), st\<lparr>camps := (camps st)[i := c\<lparr>c_beds :=
                           Some (round_int (toNumber (c_beds c) + 1))\<rparr>],
                        selections := remove1 sel (selections st)\<rparr>)"
proof -
  from assms(1) obtain si where si: "findIndex (\<lambda>s. s_userId s = u_id user) (selections st) = Some si"
    and sel: "sel = selections st ! si"
    by (auto simp: find_findIndex split: option.splits)
  from assms(2) obtain i where i: "findIndex (\<lambda>c. c_id c = s_campId sel) (camps st) = Some i"
    and c: "c = camps st ! i"
    by (auto simp: find_findIndex split: option.splits)
  from findIndex_Some [OF i] have "i < length (camps st)"
    "\<forall>j < i. c_id (camps st ! j) \<noteq> s_campId sel"
    by simp_all
  moreover have "cancel_selection user st =
      (Inr (), st\<lparr>camps := (camps st)[i := c\<lparr>c_beds := Some (round_int (toNumber (c_beds c) + 1))\<rparr>],
                 selections := remove1 sel (selections st)\<rparr>)"
    using si i sel c splice1_remove1 [OF si]
    by (simp add: cancel_selection_def Let_def)
  ultimately show ?thesis
    using c by blast
qed

text \<open>
  C6, in the arithmetic of doubles. Without a selection of the caller CancelSelection
  answers NotFound and changes nothing. With one, it succeeds and removes that
  selection; when no camp has the referenced id the camps stay as they are, and
  otherwise the first camp with that id gets its bed count plus 1, rounded to a double
  (a \<^verbatim>\<open>null\<close> count counts as 0), all other camps unchanged. The rounding is exact, so
  the count goes up by 1, whenever the result has magnitude at most 2^53.
\<close>

theorem cancel_selection_effect:
  "(find (\<lambda>s. s_userId s = u_id user) (selections st) = None \<longrightarrow>
      cancel_selection user st = (Inl NotFound, st)) \<and>
   (find (\<lambda>s. s_userId s = u_id user) (selections st) = Some sel \<and>
    find (\<lambda>c. c_id c = s_campId sel) (camps st) = None \<longrightarrow>
      cancel_selection user st = (Inr (), st\<lparr>selections := remove1 sel (selections st)\<rparr>)) \<and>
   (find (\<lambda>s. s_userId s = u_id user) (selections st) = Some sel \<and>
    find (\<lambda>c. c_id c = s_campId sel) (camps st) = Some c \<longrightarrow>
      (\<exists>i < length (camps st). camps st ! i = c \<and>
           (\<forall>j < i. c_id (camps st ! j) \<noteq> s_campId sel) \<and>
           cancel_selection user st =
             (Inr (), st\<lparr>camps := (camps st)[i := c\<lparr>c_beds :=
                           Some (round_int (toNumber (c_beds c) + 1))\<rparr>],
                        selections := remove1 sel (selections st)\<rparr>)) \<and>
      (\<bar>toNumber (c_beds c) + 1\<bar> \<le> 2 ^ 53 \<longrightarrow>
         round_int (toNumber (c_beds c) + 1) = toNumber (c_beds c) + 1))"
  using cancel_selection_NotFound [of user st] cancel_selection_camp_gone [of user st sel]
    cancel_selection_camp_found [of user st sel c] round_int_small [of "toNumber (c_beds c) + 1"]
  by blast

theorem cancel_selection_effect_witness:
  "cancel_selection dev ex_db = (Inl NotFound, ex_db) \<and>
   fst (cancel_selection asha (snd (select_camp asha ''1'' ''t1'' ex_db)\<lparr>camps := []\<rparr>)) = Inr () \<and>
   selections (snd (cancel_selection asha (snd (select_camp asha ''1'' ''t1'' ex_db)\<lparr>camps := []\<rparr>))) = [] \<and>
   fst (cancel_selection asha (snd (select_camp asha ''1'' ''t1'' ex_db))) = Inr () \<and>
   round_int (toNumber (Some 23) + 1) = 24"
proof -
  let ?st1 = "snd (select_camp asha ''1'' ''t1'' ex_db)"
  let ?sel = "\<lparr>s_id = 1, s_userId = 1, s_userEmail = JStr ''asha@example.org'',
      s_userName = JStr ''Asha'', s_campId = 1, s_campName = JStr ''Central School Grounds'',
      s_selectedDate = ''t1''\<rparr>"
  let ?c = "(defaultCamps ''2024-01-01T00:00:00.000Z'' ! 0)\<lparr>c_beds := Some 23\<rparr>"
  have n: "find (\<lambda>s. s_userId s = u_id dev) (selections ex_db) = None"
    by code_simp
  have s1: "find (\<lambda>s. s_userId s = u_id asha) (selections ?st1) = Some ?sel"
    by code_simp
  have s2: "find (\<lambda>s. s_userId s = u_id asha) (selections (?st1\<lparr>camps := []\<rparr>)) = Some ?sel"
    by code_simp
  have g: "find (\<lambda>c. c_id c = s_campId ?sel) (camps (?st1\<lparr>camps := []\<rparr>)) = None"
    by simp
  have f: "find (\<lambda>c. c_id c = s_campId ?sel) (camps ?st1) = Some ?c"
    by code_simp
  have r: "remove1 ?sel (selections (?st1\<lparr>camps := []\<rparr>)) = []"
    by code_simp
  have small: "\<bar>toNumber (c_beds ?c) + 1\<bar> \<le> 2 ^ 53" "toNumber (c_beds ?c) = toNumber (Some 23)"
    "toNumber (Some 23) + 1 = 24"
    by code_simp+
  from cancel_selection_effect [of dev ex_db ?sel ?c] n
  have a: "cancel_selection dev ex_db = (Inl NotFound, ex_db)"
    by blast
  from cancel_selection_effect [of asha "?st1\<lparr>camps := []\<rparr>" ?sel ?c] s2 g
  have "cancel_selection asha (?st1\<lparr>camps := []\<rparr>) =
      (Inr (), ?st1\<lparr>camps := [], selections := remove1 ?sel (selections (?st1\<lparr>camps := []\<rparr>))\<rparr>)"
    by simp
  with r have b: "fst (cancel_selection asha (?st1\<lparr>camps := []\<rparr>)) = Inr ()"
    "selections (snd (cancel_selection asha (?st1\<lparr>camps := []\<rparr>))) = []"
    by simp_all
  from cancel_selection_effect [of asha ?st1 ?sel ?c] s1 f small(1)
  have c: "fst (cancel_selection asha ?st1) = Inr ()"
    and d: "round_int (toNumber (c_beds ?c) + 1) = toNumber (c_beds ?c) + 1"
    by auto
  from d small(2,3) have e: "round_int (toNumber (Some 23) + 1) = 24"
    by simp
  from a b c e show ?thesis
    by blast
qed

text \<open>
  C6 as stated fails for a camp with 9007199254740992 beds and a selection (the state
  after a SelectCamp on 9007199254740994 beds): CancelSelection succeeds and the bed
  count is still 9007199254740992.
\<close>

theorem cancel_selection_counterexample:
  "has_selection (snd (select_camp asha ''4'' ''t1'' ex_big_db)) asha \<and>
   map c_beds (camps (snd (select_camp asha ''4'' ''t1'' ex_big_db))) =
     [Some 24, Some 12, Some 30, Some 9007199254740992] \<and>
   fst (cancel_selection asha (snd (select_camp asha ''4'' ''t1'' ex_big_db))) = Inr () \<and>
   map c_beds (camps (snd (cancel_selection asha (snd (select_camp asha ''4'' ''t1'' ex_big_db))))) =
     [Some 24, Some 12, Some 30, Some 9007199254740992]"
  by code_simp

section \<open>AddCamp\<close>








section \<open>Register, Login and Verify never send the password\<close>

lemma filter_no_key: "map_of (filter (\<lambda>p. fst p \<noteq> k \<and> Q p) obj) k = None"
  by (induction obj) auto

lemma stringify_omit_filter:
  "stringify (omit k obj) = filter (\<lambda>p. fst p \<noteq> k \<and> snd p \<noteq> JUndefined) obj"
  by (induction obj) (auto simp: stringify_def omit_def)

lemma filter_stringify:
  "filter (\<lambda>p. fst p \<noteq> k \<and> snd p \<noteq> JUndefined) (stringify obj) =
   filter (\<lambda>p. fst p \<noteq> k \<and> snd p \<noteq> JUndefined) obj"
  by (induction obj) (auto simp: stringify_def)

lemma find_Some_set: "find P xs = Some x \<Longrightarrow> x \<in> set xs"
  by (induction xs) (auto split: if_splits)

lemma sign_token_keys: "map_of (sign_token i e r) ''password'' = None"
  by (simp add: sign_token_def)

lemma register_response:
  assumes "register bcrypt_hash body now st = (Inr r, st')"
  shows "map_of (a_user r) ''password'' = None \<and> map_of (a_token r) ''password'' = None \<and>
         (\<exists>u p. users st' = users st @ [u] \<and> r_password body = JStr p \<and>
            map_of u ''password'' = Some (JStr (bcrypt_hash p)) \<and>
            a_user r = filter (\<lambda>q. fst q \<noteq> ''password'' \<and> snd q \<noteq> JUndefined) u)"
proof -
  from assms obtain p where p: "r_password body = JStr p"
    by (auto simp: register_def split: if_splits option.splits jsvalue.splits)
  define newUser where "newUser =
     [(''id'', JNum (int (length (users st)) + 1)),
      (''name'', r_name body),
      (''email'', r_email body),
      (''password'', JStr (bcrypt_hash p)),
      (''role'', r_role body),
      (''age'', jsonNumber (parseInt (r_age body))),
      (''contact'', r_contact body),
      (''registeredDate'', JStr now)]
     @ (if r_role body = JStr ''refugee''
        then [(''address'', r_address body), (''needs'', r_needs body)]
        else if r_role body = JStr ''volunteer''
        then [(''skills'', r_skills body), (''availability'', r_availability body)]
        else [])"
  from assms p have
    r: "a_user r = stringify (omit ''password'' newUser)"
    and t: "a_token r = sign_token (get_prop newUser ''id'') (get_prop newUser ''email'')
              (get_prop newUser ''role'')"
    and s: "users st' = users st @ [stringify newUser]"
    and nm: "truthy (r_name body)" and em: "truthy (r_email body)"
    unfolding register_def Let_def newUser_def
    by (auto split: if_splits option.splits jsvalue.splits)
  from nm em have "r_name body \<noteq> JUndefined" "r_email body \<noteq> JUndefined"
    by auto
  then have stored: "map_of (stringify newUser) ''password'' = Some (JStr (bcrypt_hash p))"
    by (simp add: newUser_def stringify_def)
  from r have f: "a_user r =
      filter (\<lambda>q. fst q \<noteq> ''password'' \<and> snd q \<noteq> JUndefined) (stringify newUser)"
    by (simp add: stringify_omit_filter filter_stringify)
  then have "map_of (a_user r) ''password'' = None"
    by (simp add: filter_no_key)
  moreover from t have "map_of (a_token r) ''password'' = None"
    by (simp add: sign_token_keys)
  ultimately show ?thesis
    using s p stored f by blast
qed

lemma login_response:
  assumes "login bcrypt_compare email password st = (Inr r, st')"
  shows "map_of (a_user r) ''password'' = None \<and> map_of (a_token r) ''password'' = None \<and>
         st' = st \<and>
         (\<exists>u \<in> set (users st). get_prop u ''email'' = email \<and>
            a_user r = filter (\<lambda>q. fst q \<noteq> ''password'' \<and> snd q \<noteq> JUndefined) u)"
proof -
  from assms obtain user where
    f: "find (\<lambda>u. get_prop u ''email'' = email) (users st) = Some user"
    and r: "a_user r = stringify (omit ''password'' user)"
    and t: "a_token r = sign_token (get_prop user ''id'') (get_prop user ''email'')
              (get_prop user ''role'')"
    and s: "st' = st"
    by (auto simp: login_def Let_def split: if_splits option.splits jsvalue.splits)
  from r have r': "a_user r = filter (\<lambda>q. fst q \<noteq> ''password'' \<and> snd q \<noteq> JUndefined) user"
    by (simp add: stringify_omit_filter)
  then have "map_of (a_user r) ''password'' = None"
    by (simp add: filter_no_key)
  moreover from t have "map_of (a_token r) ''password'' = None"
    by (simp add: sign_token_keys)
  moreover from f have "user \<in> set (users st)"
    by (rule find_Some_set)
  moreover from f have "get_prop user ''email'' = email"
    by (induction "users st" arbitrary: st) (auto simp: find_Some_iff)
  ultimately show ?thesis
    using r' s by blast
qed

lemma verify_response:
  assumes "verify user st = (Inr obj, st')"
  shows "map_of obj ''password'' = None \<and> st' = st \<and>
         (\<exists>u \<in> set (users st). find_user (u_id user) (users st) = Some u \<and>
            obj = filter (\<lambda>q. fst q \<noteq> ''password'' \<and> snd q \<noteq> JUndefined) u)"
proof -
  from assms obtain u where
    f: "find_user (u_id user) (users st) = Some u"
    and r: "obj = stringify (omit ''password'' u)" and s: "st' = st"
    by (auto simp: verify_def split: option.splits)
  from r have r': "obj = filter (\<lambda>q. fst q \<noteq> ''password'' \<and> snd q \<noteq> JUndefined) u"
    by (simp add: stringify_omit_filter)
  then have "map_of obj ''password'' = None"
    by (simp add: filter_no_key)
  moreover from f have "u \<in> set (users st)"
    unfolding find_user_def by (rule find_Some_set)
  ultimately show ?thesis
    using r' s f by blast
qed

text \<open>
  C10. Whenever Register, Login or Verify succeeds, the user object of the response is a
  stored user record with its \<^verbatim>\<open>password\<close> property removed: its properties are, in
  order, those of the record whose key is not \<^verbatim>\<open>password\<close> (and whose value is not
  \<^verbatim>\<open>undefined\<close>, which JSON cannot hold). The record is the one Register has just
  appended to the users, which does hold the hash of the password sent, the one with the
  email sent for Login, and the one \<^verbatim>\<open>users.find\<close> returns for the id of the token for
  Verify. The response has no \<^verbatim>\<open>password\<close> property, and the token payload has none
  either.
\<close>

theorem responses_omit_password:
  "(register bcrypt_hash body now st = (Inr r, st') \<longrightarrow>
      map_of (a_user r) ''password'' = None \<and> map_of (a_token r) ''password'' = None \<and>
      (\<exists>u p. users st' = users st @ [u] \<and> r_password body = JStr p \<and>
         map_of u ''password'' = Some (JStr (bcrypt_hash p)) \<and>
         a_user r = filter (\<lambda>q. fst q \<noteq> ''password'' \<and> snd q \<noteq> JUndefined) u)) \<and>
   (login bcrypt_compare email password st = (Inr r, st') \<longrightarrow>
      map_of (a_user r) ''password'' = None \<and> map_of (a_token r) ''password'' = None \<and>
      st' = st \<and>
      (\<exists>u \<in> set (users st). get_prop u ''email'' = email \<and>
         a_user r = filter (\<lambda>q. fst q \<noteq> ''password'' \<and> snd q \<noteq> JUndefined) u)) \<and>
   (verify user st = (Inr obj, st') \<longrightarrow>
      map_of obj ''password'' = None \<and> st' = st \<and>
      (\<exists>u \<in> set (users st). find_user (u_id user) (users st) = Some u \<and>
         obj = filter (\<lambda>q. fst q \<noteq> ''password'' \<and> snd q \<noteq> JUndefined) u))"
  using register_response [of bcrypt_hash body now st r st']
    login_response [of bcrypt_compare email password st r st']
    verify_response [of user st obj st']
  by blast

theorem responses_omit_password_witness:
  "\<not> isl (fst (register ex_hash (ex_body ''Esi'' ''esi@example.org'' ''refugee'') ''t'' ex_db)) \<and>
   map_of (last (users (snd (register ex_hash (ex_body ''Esi'' ''esi@example.org'' ''refugee'') ''t'' ex_db))))
     ''password'' = Some (JStr ''$2b$10$terces'') \<and>
   map_of (a_user (projr (fst (register ex_hash (ex_body ''Esi'' ''esi@example.org'' ''refugee'') ''t'' ex_db))))
     ''password'' = None \<and>
   \<not> isl (fst (login (\<lambda>p h. h = ex_hash p) (JStr ''asha@example.org'') (JStr ''secret'') ex_db)) \<and>
   map_of (a_user (projr (fst (login (\<lambda>p h. h = ex_hash p) (JStr ''asha@example.org'') (JStr ''secret'') ex_db))))
     ''password'' = None \<and>
   \<not> isl (fst (verify asha ex_db)) \<and>
   map_of (projr (fst (verify asha ex_db))) ''password'' = None"
proof -
  let ?reg = "register ex_hash (ex_body ''Esi'' ''esi@example.org'' ''refugee'') ''t'' ex_db"
  let ?login = "login (\<lambda>p h. h = ex_hash p) (JStr ''asha@example.org'') (JStr ''secret'') ex_db"
  let ?verify = "verify asha ex_db"
  have ok: "\<not> isl (fst ?reg)" "\<not> isl (fst ?login)" "\<not> isl (fst ?verify)"
    by code_simp+
  have stored: "map_of (last (users (snd ?reg))) ''password'' = Some (JStr ''$2b$10$terces'')"
    by code_simp
  from ok have h: "?reg = (Inr (projr (fst ?reg)), snd ?reg)"
    "?login = (Inr (projr (fst ?login)), snd ?login)"
    "?verify = (Inr (projr (fst ?verify)), snd ?verify)"
    by (simp_all add: prod_eq_iff)
  from responses_omit_password
    [of ex_hash "ex_body ''Esi'' ''esi@example.org'' ''refugee''" "''t''" ex_db
        "projr (fst ?reg)" "snd ?reg"] h(1)
  have a: "map_of (a_user (projr (fst ?reg))) ''password'' = None"
    by blast
  from responses_omit_password
    [of _ _ _ ex_db "projr (fst ?login)" "snd ?login" "\<lambda>p h. h = ex_hash p"
        "JStr ''asha@example.org''" "JStr ''secret''"] h(2)
  have b: "map_of (a_user (projr (fst ?login))) ''password'' = None"
    by blast
  from responses_omit_password
    [of _ _ _ ex_db _ "snd ?verify" _ _ _ asha "projr (fst ?verify)"] h(3)
  have c: "map_of (projr (fst ?verify)) ''password'' = None"
    by blast
  from ok stored a b c show ?thesis
    by blast
qed

end
